theory Spec2Isabelle
  imports Main
begin

unbundle bit_operations_syntax

section \<open>The chained join hash table of src/execution/join\_hashtable.cpp\<close>

text \<open>
  The development follows the C++ source function by function and keeps its names.
  Indices, counts, hashes and addresses are natural numbers; address \<open>0\<close> is
  \<open>nullptr\<close>. \<open>D_ASSERT\<close> is a debug-build assertion and expands to nothing in a
  release build; the functions below are those of the release build, and an assertion that
  a property depends on is given as a predicate of its own.

  Reading an array outside its bounds is undefined behaviour in the source. The
  properties below carry the bounds under which every access of the source is inside
  its buffer.
\<close>

subsection \<open>Values, selection vectors, validity masks, vectors and chunks\<close>

type_synonym idx_t = nat
type_synonym data_ptr_t = nat
type_synonym hash_t = nat

datatype val = IntVal int | BoolVal bool

text \<open>
  Modelled from the spec: the class SelectionVector is declared outside the given
  sources. A selection vector either has no buffer (the incremental selection, where
  \<open>get_index i = i\<close>) or owns a buffer of lane indices.
\<close>

datatype SelectionVector = Incremental | Buffered "idx_t list"

fun get_index :: "SelectionVector \<Rightarrow> idx_t \<Rightarrow> idx_t" where
  "get_index Incremental i = i"
| "get_index (Buffered b) i = b ! i"

text \<open>
  Modelled from the spec: the class ValidityMask is declared outside the given sources.
  A mask either has no buffer, and then every row is valid and \<open>AllValid\<close> holds, or it
  has a buffer with one bit per row (\<open>True\<close> is valid, \<open>False\<close> is NULL).
  \<open>SetInvalid\<close> on a mask without a buffer first allocates an all-valid buffer of
  \<open>cap\<close> rows.
\<close>

type_synonym ValidityMask = "bool list option"

definition AllValid :: "ValidityMask \<Rightarrow> bool" where
  "AllValid m = (m = None)"

definition RowIsValid :: "ValidityMask \<Rightarrow> idx_t \<Rightarrow> bool" where
  "RowIsValid m i = (case m of None \<Rightarrow> True | Some b \<Rightarrow> b ! i)"

definition SetValid :: "ValidityMask \<Rightarrow> idx_t \<Rightarrow> ValidityMask" where
  "SetValid m i = (case m of None \<Rightarrow> None | Some b \<Rightarrow> Some (b[i := True]))"

definition SetInvalid :: "nat \<Rightarrow> ValidityMask \<Rightarrow> idx_t \<Rightarrow> ValidityMask" where
  "SetInvalid cap m i =
     (case m of None \<Rightarrow> Some ((replicate cap True)[i := False])
      | Some b \<Rightarrow> Some (b[i := False]))"

definition Set_mask :: "nat \<Rightarrow> ValidityMask \<Rightarrow> idx_t \<Rightarrow> bool \<Rightarrow> ValidityMask" where
  "Set_mask cap m i valid = (if valid then SetValid m i else SetInvalid cap m i)"

text \<open>
  A vector in the unified format that \<open>Orrify\<close> exposes (VectorData): row \<open>i\<close> of the
  vector is entry \<open>get_index vsel i\<close> of the data and of the validity mask.
\<close>

record Vector =
  vsel :: SelectionVector
  vvalidity :: ValidityMask
  vdata :: "val list"

record DataChunk =
  chunk_size :: idx_t
  chunk_data :: "Vector list"

definition ColumnCount :: "DataChunk \<Rightarrow> idx_t" where
  "ColumnCount c = length (chunk_data c)"

text \<open>The value of row \<open>i\<close> of a vector; \<open>None\<close> is NULL.\<close>

definition GetValue :: "Vector \<Rightarrow> idx_t \<Rightarrow> val option" where
  "GetValue v i =
     (let k = get_index (vsel v) i
      in if RowIsValid (vvalidity v) k then Some (vdata v ! k) else None)"

subsection \<open>The hash table\<close>

datatype JoinType = INVALID | LEFT | RIGHT | INNER | OUTER | SEMI | ANTI | MARK | SINGLE

datatype ExpressionType =
    COMPARE_EQUAL | COMPARE_NOTEQUAL | COMPARE_LESSTHAN | COMPARE_GREATERTHAN
  | COMPARE_LESSTHANOREQUALTO | COMPARE_GREATERTHANOREQUALTO
  | COMPARE_DISTINCT_FROM | COMPARE_NOT_DISTINCT_FROM

text \<open>
  Modelled from the spec: \<open>IsRightOuterJoin\<close> is defined outside the given sources;
  the spec names the right and the full outer join.
\<close>

definition IsRightOuterJoin :: "JoinType \<Rightarrow> bool" where
  "IsRightOuterJoin t = (t = OUTER \<or> t = RIGHT)"

record RowDataBlock =
  block_ptr :: data_ptr_t
  block_count :: idx_t

record RowDataCollection =
  blocks :: "RowDataBlock list"
  rdc_count :: idx_t

text \<open>
  The row memory behind the blocks, split by what a cell holds: the 8-byte cell at
  \<open>row + pointer_offset\<close> (the hash while building, the next pointer of the chain after
  \<open>Finalize\<close>), the found flag at \<open>row + tuple_size\<close>, and the column value at
  \<open>row + col_offset\<close>. Rows of a table do not overlap, so cells of different rows or
  kinds are different cells.
\<close>

record memory =
  cells :: "data_ptr_t \<Rightarrow> nat"
  flags :: "data_ptr_t \<Rightarrow> bool"
  columns :: "data_ptr_t \<Rightarrow> val option"

record JoinHashTable =
  predicates :: "ExpressionType list"
  null_values_are_equal :: "bool list"
  equality_count :: idx_t
  condition_count :: idx_t
  build_count :: idx_t
  offsets :: "idx_t list"
  entry_size :: idx_t
  tuple_size :: idx_t
  pointer_offset :: idx_t
  join_type :: JoinType
  finalized :: bool
  has_null :: bool
  bitmask :: hash_t
  hash_map :: "data_ptr_t list"
  block_collection :: RowDataCollection
  string_heap :: RowDataCollection
  histogram_ptr :: "idx_t list"
  current_radix_bits :: idx_t
  correlated_types :: idx_t
  correlated_counts :: "(DataChunk \<times> DataChunk) list"
  heap :: memory

text \<open>
  The collaborators of the table that are not part of the given sources are parameters:
  the constants, the row collection's \<open>Build\<close> (reserving rows and returning their
  addresses), the hash of the equality keys of a row (\<open>VectorOperations::Hash\<close> and
  \<open>CombineHash\<close>), \<open>RadixPartitioning::UpdateHistogram\<close>,
  \<open>RowOperations::Scatter\<close>, the outcome of \<open>RowOperations::Match\<close> for one lane
  (\<open>Match ht keys idx row\<close>: all predicates of the join hold between row \<open>idx\<close> of the
  probe keys and the build row at address \<open>row\<close>) and the correlated aggregate's
  \<open>FetchAggregates\<close> (\<open>COUNT(*)\<close> and \<open>COUNT(key)\<close> per lane).
\<close>

record externals =
  STANDARD_VECTOR_SIZE :: idx_t
  BLOCK_SIZE :: idx_t
  sizeof_data_ptr_t :: idx_t
  INITIAL_RADIX_BITS :: idx_t
  rdc_Build :: "RowDataCollection \<Rightarrow> idx_t \<Rightarrow> RowDataCollection \<times> data_ptr_t list"
  hash_row :: "val option list \<Rightarrow> hash_t"
  UpdateHistogram :: "hash_t list \<Rightarrow> idx_t list \<Rightarrow> idx_t \<Rightarrow> idx_t list"
  Scatter :: "DataChunk \<Rightarrow> data_ptr_t list \<Rightarrow> idx_t list \<Rightarrow> memory \<times> RowDataCollection
              \<Rightarrow> memory \<times> RowDataCollection"
  Match :: "JoinHashTable \<Rightarrow> DataChunk \<Rightarrow> idx_t \<Rightarrow> data_ptr_t \<Rightarrow> bool"
  FetchAggregates :: "(DataChunk \<times> DataChunk) list \<Rightarrow> DataChunk \<Rightarrow> int list \<times> int list"

definition Count :: "JoinHashTable \<Rightarrow> idx_t" where
  "Count ht = rdc_count (block_collection ht)"

subsection \<open>Key preparation\<close>

text \<open>
  The selection that \<open>FilterNullValues\<close> reads is passed by reference and can be the
  very vector it writes (\<open>PrepareKeys\<close> passes \<open>*current_sel\<close>, which is \<open>&sel\<close> after
  the first filtered column). \<open>Same\<close> is that case: the loop reads the buffer it has
  been writing.
\<close>

datatype sel_src = Other SelectionVector | Same

fun src_index :: "sel_src \<Rightarrow> idx_t list \<Rightarrow> idx_t \<Rightarrow> idx_t" where
  "src_index (Other s) buf i = get_index s i"
| "src_index Same buf i = buf ! i"

function FilterNullValues_loop ::
  "Vector \<Rightarrow> sel_src \<Rightarrow> idx_t \<Rightarrow> idx_t \<Rightarrow> idx_t list \<times> idx_t \<Rightarrow> idx_t list \<times> idx_t" where
  "FilterNullValues_loop vd sel count i (result, result_count) =
     (if i < count then
        (let idx = src_index sel result i;
             key_idx = get_index (vsel vd) idx
         in if RowIsValid (vvalidity vd) key_idx
            then FilterNullValues_loop vd sel count (Suc i)
                   (result[result_count := idx], Suc result_count)
            else FilterNullValues_loop vd sel count (Suc i) (result, result_count))
      else (result, result_count))"
  by pat_completeness auto
termination
  by (relation "measure (\<lambda>(vd, sel, count, i, r). count - i)") auto

declare FilterNullValues_loop.simps [simp del]

definition FilterNullValues ::
  "Vector \<Rightarrow> sel_src \<Rightarrow> idx_t \<Rightarrow> idx_t list \<Rightarrow> idx_t list \<times> idx_t" where
  "FilterNullValues vd sel count result = FilterNullValues_loop vd sel count 0 (result, 0)"

text \<open>
  The loop of \<open>PrepareKeys\<close> over the key columns, column \<open>i\<close> first; the state is
  \<open>(current_sel, sel, added_count)\<close>.
\<close>

fun PrepareKeys_loop ::
  "bool list \<Rightarrow> Vector list \<Rightarrow> idx_t \<Rightarrow> sel_src \<times> idx_t list \<times> idx_t
   \<Rightarrow> sel_src \<times> idx_t list \<times> idx_t" where
  "PrepareKeys_loop nve [] i st = st"
| "PrepareKeys_loop nve (kd # key_data) i (current_sel, sel, added_count) =
     (if \<not> nve ! i then
        (if AllValid (vvalidity kd)
         then PrepareKeys_loop nve key_data (Suc i) (current_sel, sel, added_count)
         else (let (sel', added_count') = FilterNullValues kd current_sel added_count sel
               in PrepareKeys_loop nve key_data (Suc i) (Same, sel', added_count')))
      else PrepareKeys_loop nve key_data (Suc i) (current_sel, sel, added_count))"

definition PrepareKeys ::
  "JoinHashTable \<Rightarrow> DataChunk \<Rightarrow> idx_t list \<Rightarrow> bool \<Rightarrow> sel_src \<times> idx_t list \<times> idx_t" where
  "PrepareKeys ht keys sel build_side =
     (let current_sel = Other Incremental;
          added_count = chunk_size keys
      in if build_side \<and> IsRightOuterJoin (join_type ht)
         then (current_sel, sel, added_count)
         else PrepareKeys_loop (null_values_are_equal ht) (chunk_data keys) 0
                (current_sel, sel, added_count))"

subsection \<open>Construction and build\<close>

text \<open>
  Modelled from the spec: \<open>RadixPartitioning::InitializeHistogram\<close> is defined outside
  the given sources; it returns a histogram of \<open>2 ^ bits\<close> zeros.
\<close>

definition InitializeHistogram :: "idx_t \<Rightarrow> idx_t list" where
  "InitializeHistogram bits = replicate (2 ^ bits) 0"

definition is_equality_comparison :: "ExpressionType \<Rightarrow> bool" where
  "is_equality_comparison c =
     (c = COMPARE_EQUAL \<or> c = COMPARE_NOT_DISTINCT_FROM \<or> c = COMPARE_DISTINCT_FROM)"

text \<open>
  The constructor. The row layout (\<open>layout.Initialize\<close>) is computed outside the given
  sources: its column offsets and its row width are the parameters \<open>layout_offsets\<close> and
  \<open>row_width\<close>, and \<open>mem\<close> is the memory the table's rows will live in.
\<close>

definition JoinHashTable_new ::
  "externals \<Rightarrow> ExpressionType list \<Rightarrow> idx_t \<Rightarrow> JoinType \<Rightarrow> idx_t list \<Rightarrow> idx_t \<Rightarrow> memory
   \<Rightarrow> JoinHashTable" where
  "JoinHashTable_new ext conditions n_btypes type layout_offsets row_width mem =
     \<lparr> predicates = conditions,
       null_values_are_equal =
         map (\<lambda>c. c = COMPARE_DISTINCT_FROM \<or> c = COMPARE_NOT_DISTINCT_FROM) conditions,
       equality_count = length (filter is_equality_comparison conditions),
       condition_count = length conditions,
       build_count = n_btypes,
       offsets = layout_offsets,
       entry_size = row_width,
       tuple_size = layout_offsets ! (length conditions + n_btypes),
       pointer_offset = last layout_offsets,
       join_type = type,
       finalized = False,
       has_null = False,
       bitmask = 0,
       hash_map = [],
       block_collection = \<lparr> blocks = [], rdc_count = 0 \<rparr>,
       string_heap = \<lparr> blocks = [], rdc_count = 0 \<rparr>,
       histogram_ptr = InitializeHistogram (INITIAL_RADIX_BITS ext),
       current_radix_bits = INITIAL_RADIX_BITS ext,
       correlated_types = 0,
       correlated_counts = [],
       heap = mem \<rparr>"

text \<open>The lanes \<open>current_sel[0..count)\<close> that a prepared selection holds.\<close>

definition selected :: "sel_src \<Rightarrow> idx_t list \<Rightarrow> idx_t \<Rightarrow> idx_t list" where
  "selected current_sel sel count = map (src_index current_sel sel) [0..<count]"

text \<open>
  \<open>Hash\<close>: the hash of the equality keys of every row when no row was filtered, and of the
  selected rows otherwise; entry \<open>r\<close> of the result is the hash of row \<open>r\<close>.
\<close>

definition key_row :: "JoinHashTable \<Rightarrow> DataChunk \<Rightarrow> idx_t \<Rightarrow> val option list" where
  "key_row ht keys r = map (\<lambda>v. GetValue v r) (take (equality_count ht) (chunk_data keys))"

definition Hash ::
  "externals \<Rightarrow> JoinHashTable \<Rightarrow> DataChunk \<Rightarrow> sel_src \<Rightarrow> idx_t list \<Rightarrow> idx_t \<Rightarrow> hash_t list" where
  "Hash ext ht keys current_sel sel count =
     (if count = chunk_size keys
      then map (\<lambda>r. hash_row ext (key_row ht keys r)) [0..<chunk_size keys]
           @ replicate (STANDARD_VECTOR_SIZE ext - chunk_size keys) 0
      else fold (\<lambda>r hashes. hashes[r := hash_row ext (key_row ht keys r)])
             (selected current_sel sel count) (replicate (STANDARD_VECTOR_SIZE ext) 0))"

definition constant_vector :: "externals \<Rightarrow> val \<Rightarrow> Vector" where
  "constant_vector ext v =
     \<lparr> vsel = Buffered (replicate (STANDARD_VECTOR_SIZE ext) 0), vvalidity = None, vdata = [v] \<rparr>"

definition hash_vector :: "hash_t list \<Rightarrow> Vector" where
  "hash_vector hashes =
     \<lparr> vsel = Incremental, vvalidity = None, vdata = map (\<lambda>h. IntVal (int h)) hashes \<rparr>"

definition Build :: "externals \<Rightarrow> JoinHashTable \<Rightarrow> DataChunk \<Rightarrow> DataChunk \<Rightarrow> JoinHashTable" where
  "Build ext ht keys payload =
     (if chunk_size keys = 0 then ht
      else
        let ht1 =
              (if join_type ht = MARK \<and> correlated_types ht \<noteq> 0
               then ht\<lparr> correlated_counts := correlated_counts ht @
                         [(\<lparr> chunk_size = chunk_size keys,
                             chunk_data = take (correlated_types ht) (chunk_data keys) \<rparr>,
                           \<lparr> chunk_size = chunk_size keys,
                             chunk_data = [chunk_data keys ! correlated_types ht] \<rparr>)] \<rparr>
               else ht);
            (current_sel, sel, added_count) =
              PrepareKeys ht1 keys (replicate (STANDARD_VECTOR_SIZE ext) 0) True;
            ht2 = (if added_count < chunk_size keys then ht1\<lparr> has_null := True \<rparr> else ht1)
        in if added_count = 0 then ht2
           else
             let (collection, key_locations) = rdc_Build ext (block_collection ht2) added_count;
                 hash_values = Hash ext ht2 keys current_sel sel added_count;
                 lanes = selected current_sel sel added_count;
                 source_chunk =
                   \<lparr> chunk_size = chunk_size keys,
                     chunk_data = chunk_data keys @ chunk_data payload @
                       (if IsRightOuterJoin (join_type ht2)
                        then [constant_vector ext (BoolVal False)] else []) @
                       [hash_vector hash_values] \<rparr>;
                 histogram = UpdateHistogram ext (map (\<lambda>r. hash_values ! r) lanes)
                               (histogram_ptr ht2) (INITIAL_RADIX_BITS ext);
                 (mem, strings) = Scatter ext source_chunk key_locations lanes
                                    (heap ht2, string_heap ht2)
             in ht2\<lparr> block_collection := collection, string_heap := strings,
                     histogram_ptr := histogram, heap := mem \<rparr>)"

text \<open>The assertions at the head of \<open>Build\<close>.\<close>

definition Build_asserts :: "JoinHashTable \<Rightarrow> DataChunk \<Rightarrow> DataChunk \<Rightarrow> bool" where
  "Build_asserts ht keys payload = (\<not> finalized ht \<and> chunk_size keys = chunk_size payload)"

text \<open>A sequence of \<open>Build\<close> calls, one per batch \<open>(keys, payload)\<close>.\<close>

fun Build_all :: "externals \<Rightarrow> JoinHashTable \<Rightarrow> (DataChunk \<times> DataChunk) list \<Rightarrow> JoinHashTable" where
  "Build_all ext ht [] = ht"
| "Build_all ext ht ((keys, payload) # batches) = Build_all ext (Build ext ht keys payload) batches"

text \<open>Column \<open>i\<close> of the key chunk holds NULL in row \<open>r\<close>.\<close>

definition key_is_null :: "DataChunk \<Rightarrow> idx_t \<Rightarrow> idx_t \<Rightarrow> bool" where
  "key_is_null keys i r =
     (\<not> RowIsValid (vvalidity (chunk_data keys ! i)) (get_index (vsel (chunk_data keys ! i)) r))"

text \<open>
  Row \<open>r\<close> has a NULL in a key column whose null-equals flag is false: the rows that
  key preparation drops.
\<close>

definition null_in_key_column :: "JoinHashTable \<Rightarrow> DataChunk \<Rightarrow> idx_t \<Rightarrow> bool" where
  "null_in_key_column ht keys r =
     (\<exists>i \<in> set [0..<ColumnCount keys]. \<not> null_values_are_equal ht ! i \<and> key_is_null keys i r)"

text \<open>The same, restricted to the equality columns (the first \<open>equality_count\<close> columns).\<close>

definition null_in_equality_column :: "JoinHashTable \<Rightarrow> DataChunk \<Rightarrow> idx_t \<Rightarrow> bool" where
  "null_in_equality_column ht keys r =
     (\<exists>i \<in> set [0..<equality_count ht]. \<not> null_values_are_equal ht ! i \<and> key_is_null keys i r)"

text \<open>Row \<open>r\<close> of a key column is not NULL.\<close>

definition row_valid :: "Vector \<Rightarrow> idx_t \<Rightarrow> bool" where
  "row_valid vd r = RowIsValid (vvalidity vd) (get_index (vsel vd) r)"

subsection \<open>Finalize: the pointer array and the chains\<close>

text \<open>
  Modelled from the spec: \<open>NextPowerOfTwo\<close> is defined outside the given sources; the
  spec calls it \<open>next_pow2\<close>, the least power of two that is not below its argument.
\<close>

function next_pow2_from :: "nat \<Rightarrow> nat \<Rightarrow> nat" where
  "next_pow2_from p v = (if p = 0 \<or> v \<le> p then p else next_pow2_from (2 * p) v)"
  by pat_completeness auto
termination
  by (relation "measure (\<lambda>(p, v). v - p)") auto

declare next_pow2_from.simps [simp del]

definition NextPowerOfTwo :: "idx_t \<Rightarrow> idx_t" where
  "NextPowerOfTwo v = next_pow2_from 1 v"

text \<open>
  \<open>ApplyBitmask(hashes, count)\<close> on a flat vector: the first \<open>count\<close> hashes are
  reduced to slot indices. (For a constant vector the source reduces the one value, and
  \<open>Normalify\<close> then expands it to the same flat vector.)
\<close>

definition ApplyBitmask :: "JoinHashTable \<Rightarrow> hash_t list \<Rightarrow> idx_t \<Rightarrow> hash_t list" where
  "ApplyBitmask ht hashes count =
     map (\<lambda>h. h AND bitmask ht) (take count hashes) @ drop count hashes"

text \<open>
  One pass of the loop of \<open>InsertHashes\<close>: the current head of the slot is stored into
  the row at \<open>pointer_offset\<close>, and the row becomes the head.
\<close>

definition InsertHashes_step ::
  "hash_t list \<Rightarrow> data_ptr_t list \<Rightarrow> idx_t \<Rightarrow> JoinHashTable \<Rightarrow> JoinHashTable" where
  "InsertHashes_step indices key_locations i ht =
     (let index = indices ! i;
          pointers = hash_map ht;
          mem = heap ht
      in ht\<lparr> heap := mem\<lparr> cells := (cells mem)
                        (key_locations ! i + pointer_offset ht := pointers ! index) \<rparr>,
              hash_map := pointers[index := key_locations ! i] \<rparr>)"

definition InsertHashes ::
  "JoinHashTable \<Rightarrow> hash_t list \<Rightarrow> idx_t \<Rightarrow> data_ptr_t list \<Rightarrow> JoinHashTable" where
  "InsertHashes ht hashes count key_locations =
     (let indices = ApplyBitmask ht hashes count
      in fold (InsertHashes_step indices key_locations) [0..<count] ht)"

text \<open>
  The head of \<open>Finalize\<close>: the capacity, the bitmask and the zeroed pointer array.
  \<open>Count() * 2\<close> is a 64-bit product.
\<close>

definition Finalize_capacity :: "externals \<Rightarrow> JoinHashTable \<Rightarrow> idx_t" where
  "Finalize_capacity ext ht =
     NextPowerOfTwo (max ((Count ht * 2) mod 2 ^ 64)
                         (BLOCK_SIZE ext div sizeof_data_ptr_t ext + 1)) mod 2 ^ 64"

definition Finalize_allocate :: "externals \<Rightarrow> JoinHashTable \<Rightarrow> JoinHashTable" where
  "Finalize_allocate ext ht =
     (let capacity = Finalize_capacity ext ht
      in ht\<lparr> bitmask := capacity - 1, hash_map := replicate capacity 0 \<rparr>)"

text \<open>
  The \<open>while (entry < block->count)\<close> loop over one block. It takes
  \<open>min STANDARD_VECTOR_SIZE (count - entry)\<close> rows at a time, loads their hashes from
  \<open>row + pointer_offset\<close> and inserts them.
\<close>

partial_function (option) Finalize_block ::
  "externals \<Rightarrow> idx_t \<Rightarrow> idx_t \<Rightarrow> data_ptr_t \<Rightarrow> JoinHashTable \<Rightarrow> JoinHashTable option" where
  "Finalize_block ext count entry dataptr ht =
     (if entry < count then
        (let next = min (STANDARD_VECTOR_SIZE ext) (count - entry);
             hash_data = map (\<lambda>i. cells (heap ht) (dataptr + i * entry_size ht + pointer_offset ht))
                           [0..<next];
             key_locations = map (\<lambda>i. dataptr + i * entry_size ht) [0..<next]
         in Finalize_block ext count (entry + next) (dataptr + next * entry_size ht)
              (InsertHashes ht hash_data next key_locations))
      else Some ht)"

fun Finalize_blocks :: "externals \<Rightarrow> RowDataBlock list \<Rightarrow> JoinHashTable \<Rightarrow> JoinHashTable option" where
  "Finalize_blocks ext [] ht = Some ht"
| "Finalize_blocks ext (block # rest) ht =
     (case Finalize_block ext (block_count block) 0 (block_ptr block) ht of
        None \<Rightarrow> None
      | Some ht' \<Rightarrow> Finalize_blocks ext rest ht')"

definition Finalize :: "externals \<Rightarrow> JoinHashTable \<Rightarrow> JoinHashTable option" where
  "Finalize ext ht =
     (case Finalize_blocks ext (blocks (block_collection ht)) (Finalize_allocate ext ht) of
        None \<Rightarrow> None
      | Some ht' \<Rightarrow> Some (ht'\<lparr> finalized := True \<rparr>))"

text \<open>
  The addresses of the rows of a block collection in block order, row \<open>i\<close> of a block at
  \<open>block_ptr + i * entry_size\<close>: the order in which \<open>Finalize\<close> inserts them.
\<close>

definition block_rows :: "idx_t \<Rightarrow> RowDataBlock \<Rightarrow> data_ptr_t list" where
  "block_rows width block = map (\<lambda>i. block_ptr block + i * width) [0..<block_count block]"

definition table_rows :: "JoinHashTable \<Rightarrow> data_ptr_t list" where
  "table_rows ht = concat (map (block_rows (entry_size ht)) (blocks (block_collection ht)))"

text \<open>
  Walking a chain: from a head pointer, follow the next pointers stored at
  \<open>pointer_offset\<close> until \<open>nullptr\<close>. The walk takes at most \<open>n\<close> rows; \<open>None\<close> says
  the chain is longer.
\<close>

fun chain_walk :: "nat \<Rightarrow> (data_ptr_t \<Rightarrow> nat) \<Rightarrow> idx_t \<Rightarrow> data_ptr_t \<Rightarrow> data_ptr_t list option" where
  "chain_walk 0 next_cells off p = (if p = 0 then Some [] else None)"
| "chain_walk (Suc n) next_cells off p =
     (if p = 0 then Some []
      else map_option (Cons p) (chain_walk n next_cells off (next_cells (p + off))))"

text \<open>
  The effect of \<open>InsertHashes\<close> on one row whose hash is still in its cell at
  \<open>pointer_offset\<close>, as \<open>Finalize\<close> loads it.
\<close>

definition push_row :: "data_ptr_t \<Rightarrow> JoinHashTable \<Rightarrow> JoinHashTable" where
  "push_row row ht =
     (let slot = cells (heap ht) (row + pointer_offset ht) AND bitmask ht
      in ht\<lparr> heap := (heap ht)\<lparr> cells := (cells (heap ht))
                          (row + pointer_offset ht := hash_map ht ! slot) \<rparr>,
              hash_map := (hash_map ht)[slot := row] \<rparr>)"

text \<open>\<open>is_chain next_cells off p rows\<close>: the chain headed by \<open>p\<close> is exactly \<open>rows\<close>.\<close>

fun is_chain :: "(data_ptr_t \<Rightarrow> nat) \<Rightarrow> idx_t \<Rightarrow> data_ptr_t \<Rightarrow> data_ptr_t list \<Rightarrow> bool" where
  "is_chain next_cells off p [] = (p = 0)"
| "is_chain next_cells off p (row # rows) =
     (p = row \<and> row \<noteq> 0 \<and> is_chain next_cells off (next_cells (row + off)) rows)"

text \<open>
  Every slot of the pointer array heads the chain of the rows of \<open>rows\<close> that hash to
  it, the row inserted last first; \<open>cells0\<close> is the memory that held the hashes.
\<close>

definition chains_of :: "JoinHashTable \<Rightarrow> (data_ptr_t \<Rightarrow> nat) \<Rightarrow> data_ptr_t list \<Rightarrow> bool" where
  "chains_of ht cells0 rows =
     (\<forall>s<length (hash_map ht).
        is_chain (cells (heap ht)) (pointer_offset ht) (hash_map ht ! s)
          (rev (filter (\<lambda>row. cells0 (row + pointer_offset ht) AND bitmask ht = s) rows)))"

subsection \<open>The external build: reducing the histogram\<close>

text \<open>
  Modelled from the spec: \<open>RadixPartitioning::ReduceHistogram\<close> is defined outside the
  given sources. It merges adjacent buckets:
  \<open>new[i] = sum of old[i * k .. i * k + k - 1]\<close> with \<open>k = 2 ^ (from - to)\<close>.
\<close>

definition RadixPartitioning_ReduceHistogram :: "idx_t list \<Rightarrow> idx_t \<Rightarrow> idx_t \<Rightarrow> idx_t list" where
  "RadixPartitioning_ReduceHistogram hist from_bits to_bits =
     (let k = 2 ^ (from_bits - to_bits)
      in map (\<lambda>i. sum_list (take k (drop (i * k) hist))) [0..<2 ^ to_bits])"

definition PartitionsFitInMemory :: "idx_t list \<Rightarrow> idx_t \<Rightarrow> bool" where
  "PartitionsFitInMemory histogram average_row_size = False"

partial_function (option) ReduceHistogram_loop :: "idx_t \<Rightarrow> JoinHashTable \<Rightarrow> JoinHashTable option" where
  "ReduceHistogram_loop avg_row_size ht =
     (if current_radix_bits ht > 1 then
        (let reduced_hist = RadixPartitioning_ReduceHistogram (histogram_ptr ht)
                              (current_radix_bits ht) (current_radix_bits ht - 1)
         in if PartitionsFitInMemory reduced_hist avg_row_size
            then ReduceHistogram_loop avg_row_size (ht\<lparr> histogram_ptr := reduced_hist \<rparr>)
            else Some ht)
      else Some ht)"

definition ReduceHistogram :: "JoinHashTable \<Rightarrow> idx_t \<Rightarrow> JoinHashTable option" where
  "ReduceHistogram ht avg_string_size =
     (let avg_row_size = avg_string_size + entry_size ht
      in ReduceHistogram_loop avg_row_size ht)"

text \<open>
  The fit check in the words of the spec: every partition's estimated size,
  \<open>count * (row_width + avg_string_bytes)\<close>, is within the memory budget.
\<close>

definition partitions_fit_spec :: "nat \<Rightarrow> idx_t list \<Rightarrow> idx_t \<Rightarrow> bool" where
  "partitions_fit_spec budget histogram average_row_size =
     list_all (\<lambda>count. count * average_row_size \<le> budget) histogram"

subsection \<open>The scan of the unmatched build rows\<close>

record JoinHTScanState =
  position :: idx_t
  block_position :: idx_t

text \<open>A constant NULL vector (\<open>SetVectorType(CONSTANT_VECTOR)\<close>, \<open>SetNull(vec, true)\<close>).\<close>

definition ConstantNull :: "externals \<Rightarrow> Vector" where
  "ConstantNull ext =
     \<lparr> vsel = Buffered (replicate (STANDARD_VECTOR_SIZE ext) 0),
       vvalidity = Some [False], vdata = [IntVal 0] \<rparr>"

text \<open>
  Modelled from the spec: \<open>RowOperations::Gather\<close> is defined outside the given sources.
  With incremental selections it reads, for each of the rows at \<open>addresses\<close>, the column
  stored at \<open>col_offset\<close> into a flat vector; a NULL in the row is a NULL in the vector.
\<close>

definition Gather :: "memory \<Rightarrow> data_ptr_t list \<Rightarrow> idx_t \<Rightarrow> Vector" where
  "Gather mem addresses col_offset =
     \<lparr> vsel = Incremental,
       vvalidity = Some (map (\<lambda>a. columns mem (a + col_offset) \<noteq> None) addresses),
       vdata = map (\<lambda>a. case columns mem (a + col_offset) of Some v \<Rightarrow> v | None \<Rightarrow> IntVal 0)
                 addresses \<rparr>"

text \<open>
  The inner loop of \<open>ScanFullOuter\<close> over the rows of one block from \<open>pos\<close>;
  \<open>found\<close> is \<open>key_locations[0..found_entries)\<close>. When the vector is full the loop
  steps over the row just taken and breaks.
\<close>

function ScanFullOuter_block ::
  "externals \<Rightarrow> JoinHashTable \<Rightarrow> data_ptr_t \<Rightarrow> idx_t \<Rightarrow> idx_t \<Rightarrow> data_ptr_t list
   \<Rightarrow> idx_t \<times> data_ptr_t list" where
  "ScanFullOuter_block ext ht baseptr count pos found =
     (if pos < count then
        (let tuple_base = baseptr + pos * entry_size ht;
             found_match = flags (heap ht) (tuple_base + tuple_size ht)
         in if \<not> found_match then
              (let found' = found @ [tuple_base]
               in if length found' = STANDARD_VECTOR_SIZE ext then (Suc pos, found')
                  else ScanFullOuter_block ext ht baseptr count (Suc pos) found')
            else ScanFullOuter_block ext ht baseptr count (Suc pos) found)
      else (pos, found))"
  by pat_completeness auto
termination
  by (relation "measure (\<lambda>(ext, ht, baseptr, count, pos, found). count - pos)") auto

declare ScanFullOuter_block.simps [simp del]

text \<open>The outer loop over the blocks; on a full vector it breaks without advancing.\<close>

function ScanFullOuter_blocks ::
  "externals \<Rightarrow> JoinHashTable \<Rightarrow> JoinHTScanState \<Rightarrow> data_ptr_t list
   \<Rightarrow> JoinHTScanState \<times> data_ptr_t list" where
  "ScanFullOuter_blocks ext ht state found =
     (if block_position state < length (blocks (block_collection ht)) then
        (let block = blocks (block_collection ht) ! block_position state;
             (pos, found') = ScanFullOuter_block ext ht (block_ptr block) (block_count block)
                               (position state) found
         in if length found' = STANDARD_VECTOR_SIZE ext
            then (state\<lparr> position := pos \<rparr>, found')
            else ScanFullOuter_blocks ext ht
                   (state\<lparr> block_position := Suc (block_position state), position := 0 \<rparr>) found')
      else (state, found))"
  by pat_completeness auto
termination
  by (relation "measure (\<lambda>(ext, ht, state, found).
        length (blocks (block_collection ht)) - block_position state)") auto

declare ScanFullOuter_blocks.simps [simp del]

text \<open>
  \<open>ScanFullOuter\<close> returns the result chunk, the scan state and the addresses it
  collected. \<open>left_column_count\<close> is an unsigned difference in the source: the result
  chunk has at least the build columns.
\<close>

definition ScanFullOuter ::
  "externals \<Rightarrow> JoinHashTable \<Rightarrow> DataChunk \<Rightarrow> JoinHTScanState
   \<Rightarrow> DataChunk \<times> JoinHTScanState \<times> data_ptr_t list" where
  "ScanFullOuter ext ht result state =
     (let (state', key_locations) = ScanFullOuter_blocks ext ht state [];
          found_entries = length key_locations;
          result1 = result\<lparr> chunk_size := found_entries \<rparr>
      in if found_entries > 0 then
           (let left_column_count = ColumnCount result1 - build_count ht;
                data1 = fold (\<lambda>i data. data[i := ConstantNull ext]) [0..<left_column_count]
                          (chunk_data result1);
                data2 = fold (\<lambda>i data. data[left_column_count + i :=
                                  Gather (heap ht) key_locations (offsets ht ! (condition_count ht + i))])
                          [0..<build_count ht] data1
            in (result1\<lparr> chunk_data := data2 \<rparr>, state', key_locations))
         else (result1, state', key_locations))"

text \<open>
  The scan to its end: \<open>n\<close> calls of \<open>ScanFullOuter\<close>, each into the chunk \<open>result\<close>,
  with the state the call before left; the result is the chunk and the addresses of each
  call.
\<close>

fun ScanFullOuter_calls ::
  "externals \<Rightarrow> JoinHashTable \<Rightarrow> DataChunk \<Rightarrow> nat \<Rightarrow> JoinHTScanState
   \<Rightarrow> (DataChunk \<times> data_ptr_t list) list" where
  "ScanFullOuter_calls ext ht result 0 state = []"
| "ScanFullOuter_calls ext ht result (Suc n) state =
     (let (chunk, state', key_locations) = ScanFullOuter ext ht result state
      in (chunk, key_locations) # ScanFullOuter_calls ext ht result n state')"

text \<open>The rows the scan has still to visit, and the rows whose found flag is false.\<close>

text \<open>The addresses of the rows \<open>pos..count-1\<close> of a block at \<open>base\<close>.\<close>

definition rows_between :: "data_ptr_t \<Rightarrow> idx_t \<Rightarrow> idx_t \<Rightarrow> idx_t \<Rightarrow> data_ptr_t list" where
  "rows_between base es pos count = map (\<lambda>i. base + i * es) [pos..<count]"

definition remaining_rows :: "JoinHashTable \<Rightarrow> JoinHTScanState \<Rightarrow> data_ptr_t list" where
  "remaining_rows ht state =
     (if block_position state < length (blocks (block_collection ht))
      then drop (position state)
             (block_rows (entry_size ht) (blocks (block_collection ht) ! block_position state)) @
           concat (map (block_rows (entry_size ht))
                     (drop (Suc (block_position state)) (blocks (block_collection ht))))
      else [])"

definition not_found :: "JoinHashTable \<Rightarrow> data_ptr_t \<Rightarrow> bool" where
  "not_found ht row = (\<not> flags (heap ht) (row + tuple_size ht))"

text \<open>
  An emitted chunk: as many rows as addresses, every probe-side column NULL, and build
  column \<open>i\<close> of row \<open>r\<close> the value stored in the row at the offset of layout column
  \<open>condition_count + i\<close>.
\<close>

definition emitted_chunk :: "JoinHashTable \<Rightarrow> idx_t \<Rightarrow> DataChunk \<Rightarrow> data_ptr_t list \<Rightarrow> bool" where
  "emitted_chunk ht left_column_count chunk addresses =
     (chunk_size chunk = length addresses \<and>
      (\<forall>r<length addresses.
         (\<forall>i<left_column_count. GetValue (chunk_data chunk ! i) r = None) \<and>
         (\<forall>i<build_count ht.
            GetValue (chunk_data chunk ! (left_column_count + i)) r =
              columns (heap ht) (addresses ! r + offsets ht ! (condition_count ht + i)))))"

subsection \<open>Probing: the scan structure\<close>

datatype error = InternalException string

record ScanStructure =
  pointers :: "data_ptr_t list"
  sel_vector :: "idx_t list"
  ss_count :: idx_t
  found_match :: "bool list option"
  finished :: bool

text \<open>
  The loop shared by \<open>AdvancePointers\<close> and \<open>InitializeSelectionVector\<close>: for each
  lane of the selection \<open>sel[0..sel_count)\<close> the lane's pointer is replaced by what
  \<open>load\<close> reads through it, and the lane is appended to \<open>sel_vector\<close> if the new pointer
  is not null. \<open>sel\<close> can be \<open>sel_vector\<close> itself (\<open>Same\<close>); the loop then compacts the
  vector in place.
\<close>

function load_loop ::
  "(data_ptr_t \<Rightarrow> data_ptr_t) \<Rightarrow> sel_src \<Rightarrow> idx_t \<Rightarrow> idx_t
   \<Rightarrow> data_ptr_t list \<times> idx_t list \<times> idx_t \<Rightarrow> data_ptr_t list \<times> idx_t list \<times> idx_t" where
  "load_loop load sel sel_count i (ptrs, selv, new_count) =
     (if i < sel_count then
        (let idx = src_index sel selv i;
             ptrs' = ptrs[idx := load (ptrs ! idx)]
         in if ptrs' ! idx \<noteq> 0
            then load_loop load sel sel_count (Suc i) (ptrs', selv[new_count := idx], Suc new_count)
            else load_loop load sel sel_count (Suc i) (ptrs', selv, new_count))
      else (ptrs, selv, new_count))"
  by pat_completeness auto
termination
  by (relation "measure (\<lambda>(load, sel, sel_count, i, st). sel_count - i)") auto

declare load_loop.simps [simp del]

text \<open>The lanes \<open>sel[i..n)\<close> of a selection, and what the loop has done when it ends.\<close>

definition lanes_from :: "sel_src \<Rightarrow> idx_t list \<Rightarrow> idx_t \<Rightarrow> idx_t \<Rightarrow> idx_t list" where
  "lanes_from src sv i n = map (src_index src sv) [i..<n]"

definition load_loop_post ::
  "(data_ptr_t \<Rightarrow> data_ptr_t) \<Rightarrow> idx_t list \<Rightarrow> data_ptr_t list \<Rightarrow> idx_t list \<Rightarrow> idx_t
   \<Rightarrow> data_ptr_t list \<times> idx_t list \<times> idx_t \<Rightarrow> bool" where
  "load_loop_post load L ptrs sv rc r =
     (case r of (ptrs', sv', rc') \<Rightarrow>
        length sv' = length sv \<and> length ptrs' = length ptrs \<and>
        rc' = rc + length (filter (\<lambda>idx. load (ptrs ! idx) \<noteq> 0) L) \<and>
        take rc' sv' = take rc sv @ filter (\<lambda>idx. load (ptrs ! idx) \<noteq> 0) L \<and>
        (\<forall>idx\<in>set L. ptrs' ! idx = load (ptrs ! idx)) \<and>
        (\<forall>j. j \<notin> set L \<longrightarrow> ptrs' ! j = ptrs ! j))"

text \<open>\<open>AdvancePointers(sel, sel_count)\<close>: the load is \<open>Load(ptrs[idx] + pointer_offset)\<close>.\<close>

definition next_pointer :: "JoinHashTable \<Rightarrow> data_ptr_t \<Rightarrow> data_ptr_t" where
  "next_pointer ht p = cells (heap ht) (p + pointer_offset ht)"

definition AdvancePointers :: "JoinHashTable \<Rightarrow> ScanStructure \<Rightarrow> sel_src \<Rightarrow> idx_t \<Rightarrow> ScanStructure" where
  "AdvancePointers ht ss sel sel_count =
     (let (ptrs, selv, new_count) =
            load_loop (next_pointer ht) sel sel_count 0 (pointers ss, sel_vector ss, 0)
      in ss\<lparr> pointers := ptrs, sel_vector := selv, ss_count := new_count \<rparr>)"

text \<open>\<open>AdvancePointers()\<close>: the selection is the structure's own \<open>sel_vector\<close>.\<close>

definition AdvancePointers_self :: "JoinHashTable \<Rightarrow> ScanStructure \<Rightarrow> ScanStructure" where
  "AdvancePointers_self ht ss = AdvancePointers ht ss Same (ss_count ss)"

text \<open>
  \<open>InitializeSelectionVector\<close>: after \<open>ApplyBitmask\<close> a lane's pointer is the address of
  its slot in the pointer array, here the index of the slot, and the load reads the slot.
  The second component is the list of the slots read, in order.
\<close>

definition InitializeSelectionVector ::
  "JoinHashTable \<Rightarrow> ScanStructure \<Rightarrow> sel_src \<Rightarrow> ScanStructure \<times> idx_t list" where
  "InitializeSelectionVector ht ss current_sel =
     (let (ptrs, selv, non_empty_count) =
            load_loop (\<lambda>slot. hash_map ht ! slot) current_sel (ss_count ss) 0
              (pointers ss, sel_vector ss, 0)
      in (ss\<lparr> pointers := ptrs, sel_vector := selv, ss_count := non_empty_count \<rparr>,
          map (\<lambda>idx. pointers ss ! idx) (selected current_sel (sel_vector ss) (ss_count ss))))"

text \<open>The assertions at the head of \<open>InitializeScanStructure\<close> ("should be handled before").\<close>

definition InitializeScanStructure_asserts :: "JoinHashTable \<Rightarrow> bool" where
  "InitializeScanStructure_asserts ht = (Count ht > 0 \<and> finalized ht)"

definition InitializeScanStructure ::
  "externals \<Rightarrow> JoinHashTable \<Rightarrow> DataChunk \<Rightarrow> ScanStructure \<times> sel_src" where
  "InitializeScanStructure ext ht keys =
     (let ss = \<lparr> pointers = replicate (STANDARD_VECTOR_SIZE ext) 0,
                 sel_vector = replicate (STANDARD_VECTOR_SIZE ext) 0,
                 ss_count = 0,
                 found_match = (if join_type ht \<noteq> INNER
                                then Some (replicate (STANDARD_VECTOR_SIZE ext) False) else None),
                 finished = False \<rparr>;
          (current_sel, selv, added_count) = PrepareKeys ht keys (sel_vector ss) False
      in (ss\<lparr> sel_vector := selv, ss_count := added_count \<rparr>, current_sel))"

text \<open>
  \<open>ApplyBitmask(hashes, sel, count, pointers)\<close>: the pointer of each selected lane becomes
  the slot \<open>hash AND bitmask\<close> of the pointer array.
\<close>

definition ApplyBitmask_pointers ::
  "JoinHashTable \<Rightarrow> hash_t list \<Rightarrow> idx_t list \<Rightarrow> data_ptr_t list \<Rightarrow> data_ptr_t list" where
  "ApplyBitmask_pointers ht hashes lanes ptrs =
     fold (\<lambda>rindex result_data. result_data[rindex := hashes ! rindex AND bitmask ht]) lanes ptrs"

text \<open>\<open>Probe\<close> returns the scan structure and the slots of the pointer array it has read.\<close>

definition Probe :: "externals \<Rightarrow> JoinHashTable \<Rightarrow> DataChunk \<Rightarrow> ScanStructure \<times> idx_t list" where
  "Probe ext ht keys =
     (let (ss, current_sel) = InitializeScanStructure ext ht keys
      in if ss_count ss = 0 then (ss, [])
         else
           (let hashes = Hash ext ht keys current_sel (sel_vector ss) (ss_count ss);
                ss1 = ss\<lparr> pointers := ApplyBitmask_pointers ht hashes
                                       (selected current_sel (sel_vector ss) (ss_count ss))
                                       (pointers ss) \<rparr>
            in InitializeSelectionVector ht ss1 current_sel))"

text \<open>
  Modelled from the spec: \<open>RowOperations::Match\<close> is defined outside the given sources.
  It produces the match selection, the live lanes for which all predicates hold against
  the row the lane points to, and the complementary no-match selection, each in the order
  of the live lanes. \<open>ResolvePredicates\<close> starts it from the scan selection.
\<close>

definition ResolvePredicates ::
  "externals \<Rightarrow> JoinHashTable \<Rightarrow> DataChunk \<Rightarrow> ScanStructure \<Rightarrow> idx_t list \<times> idx_t list" where
  "ResolvePredicates ext ht keys ss =
     (let lanes = take (ss_count ss) (sel_vector ss)
      in (filter (\<lambda>idx. Match ext ht keys idx (pointers ss ! idx)) lanes,
          filter (\<lambda>idx. \<not> Match ext ht keys idx (pointers ss ! idx)) lanes))"

text \<open>
  \<open>found_match[idx] = true\<close> for the lanes of a selection. \<open>found_match\<close> is a null
  pointer for an inner join; a write through it does not return (\<open>None\<close>).
\<close>

definition mark_found :: "idx_t list \<Rightarrow> bool list option \<Rightarrow> bool list option option" where
  "mark_found lanes fm =
     (if lanes = [] then Some fm
      else case fm of None \<Rightarrow> None
           | Some f \<Rightarrow> Some (Some (fold (\<lambda>idx f. f[idx := True]) lanes f)))"

text \<open>
  \<open>ScanKeyMatches\<close>: \<open>None\<close> says that the call does not return, because a chain
  never ends or because of a write through a null \<open>found_match\<close>.
\<close>

partial_function (option) ScanKeyMatches ::
  "externals \<Rightarrow> JoinHashTable \<Rightarrow> DataChunk \<Rightarrow> ScanStructure \<Rightarrow> ScanStructure option" where
  "ScanKeyMatches ext ht keys ss =
     (if ss_count ss > 0 then
        (let (match_sel, no_match_sel) = ResolvePredicates ext ht keys ss;
             match_count = length match_sel;
             no_match_count = ss_count ss - match_count
         in case mark_found match_sel (found_match ss) of
              None \<Rightarrow> None
            | Some fm \<Rightarrow>
                ScanKeyMatches ext ht keys
                  (AdvancePointers ht (ss\<lparr> found_match := fm \<rparr>)
                     (Other (Buffered no_match_sel)) no_match_count))
      else Some ss)"

text \<open>
  Modelled from the spec: \<open>DataChunk::Slice\<close> is defined outside the given sources. The
  first columns of the result become the columns of \<open>other\<close> seen through the selection:
  row \<open>i\<close> of the result is row \<open>sel[i]\<close> of \<open>other\<close>; the result has \<open>count\<close> rows.
\<close>

definition Slice :: "DataChunk \<Rightarrow> DataChunk \<Rightarrow> idx_t list \<Rightarrow> idx_t \<Rightarrow> DataChunk" where
  "Slice result other sel count =
     \<lparr> chunk_size = count,
       chunk_data =
         map (\<lambda>v. v\<lparr> vsel := Buffered (map (get_index (vsel v)) (take count sel)) \<rparr>) (chunk_data other)
         @ drop (length (chunk_data other)) (chunk_data result) \<rparr>"

definition NextSemiOrAntiJoin ::
  "bool \<Rightarrow> DataChunk \<Rightarrow> DataChunk \<Rightarrow> DataChunk \<Rightarrow> ScanStructure \<Rightarrow> DataChunk option" where
  "NextSemiOrAntiJoin MATCH keys left result ss =
     (if chunk_size keys = 0 then Some result
      else case found_match ss of
             None \<Rightarrow> None
           | Some fm \<Rightarrow>
               (let sel = filter (\<lambda>i. fm ! i = MATCH) [0..<chunk_size keys];
                    result_count = length sel
                in if result_count > 0 then Some (Slice result left sel result_count)
                   else Some result))"

definition NextSemiJoin ::
  "externals \<Rightarrow> JoinHashTable \<Rightarrow> DataChunk \<Rightarrow> DataChunk \<Rightarrow> DataChunk \<Rightarrow> ScanStructure
   \<Rightarrow> (ScanStructure \<times> DataChunk) option" where
  "NextSemiJoin ext ht keys left result ss =
     (case ScanKeyMatches ext ht keys ss of
        None \<Rightarrow> None
      | Some ss1 \<Rightarrow>
          (case NextSemiOrAntiJoin True keys left result ss1 of
             None \<Rightarrow> None
           | Some result1 \<Rightarrow> Some (ss1\<lparr> finished := True \<rparr>, result1)))"

definition NextAntiJoin ::
  "externals \<Rightarrow> JoinHashTable \<Rightarrow> DataChunk \<Rightarrow> DataChunk \<Rightarrow> DataChunk \<Rightarrow> ScanStructure
   \<Rightarrow> (ScanStructure \<times> DataChunk) option" where
  "NextAntiJoin ext ht keys left result ss =
     (case ScanKeyMatches ext ht keys ss of
        None \<Rightarrow> None
      | Some ss1 \<Rightarrow>
          (case NextSemiOrAntiJoin False keys left result ss1 of
             None \<Rightarrow> None
           | Some result1 \<Rightarrow> Some (ss1\<lparr> finished := True \<rparr>, result1)))"

text \<open>
  \<open>ConstructMarkJoinResult\<close>. The mark vector is the last vector of the result
  (\<open>result.data.back()\<close>); \<open>bool_result\<close> is its data and \<open>mask\<close> its validity mask.
\<close>

definition reference_columns :: "DataChunk \<Rightarrow> DataChunk \<Rightarrow> DataChunk" where
  "reference_columns result child =
     result\<lparr> chunk_data := fold (\<lambda>i data. data[i := chunk_data child ! i])
                               [0..<ColumnCount child] (chunk_data result) \<rparr>"

definition mark_key_nulls :: "externals \<Rightarrow> JoinHashTable \<Rightarrow> DataChunk \<Rightarrow> ValidityMask \<Rightarrow> ValidityMask" where
  "mark_key_nulls ext ht join_keys msk =
     fold (\<lambda>col_idx msk.
             if null_values_are_equal ht ! col_idx then msk
             else (let jdata = chunk_data join_keys ! col_idx
                   in if \<not> AllValid (vvalidity jdata)
                      then fold (\<lambda>i msk.
                                   (let jidx = get_index (vsel jdata) i
                                    in Set_mask (STANDARD_VECTOR_SIZE ext) msk i
                                         (RowIsValid (vvalidity jdata) jidx)))
                             [0..<chunk_size join_keys] msk
                      else msk))
       [0..<ColumnCount join_keys] msk"

definition ConstructMarkJoinResult ::
  "externals \<Rightarrow> JoinHashTable \<Rightarrow> ScanStructure \<Rightarrow> DataChunk \<Rightarrow> DataChunk \<Rightarrow> DataChunk \<Rightarrow> DataChunk" where
  "ConstructMarkJoinResult ext ht ss join_keys child result =
     (let result1 = (reference_columns result child)\<lparr> chunk_size := chunk_size child \<rparr>;
          mark_vector = (last (chunk_data result1))\<lparr> vsel := Incremental \<rparr>;
          mask1 = mark_key_nulls ext ht join_keys (vvalidity mark_vector);
          bool_result =
            (case found_match ss of
               Some fm \<Rightarrow> fold (\<lambda>i data. data[i := BoolVal (fm ! i)]) [0..<chunk_size child]
                            (vdata mark_vector)
             | None \<Rightarrow> fold (\<lambda>i data. data[i := BoolVal False]) [0..<chunk_size child]
                         (vdata mark_vector));
          mask2 =
            (if has_null ht
             then fold (\<lambda>i msk. if bool_result ! i = BoolVal False
                                  then SetInvalid (STANDARD_VECTOR_SIZE ext) msk i else msk)
                    [0..<chunk_size child] mask1
             else mask1)
      in result1\<lparr> chunk_data := (chunk_data result1)
                    [length (chunk_data result1) - 1 :=
                       mark_vector\<lparr> vvalidity := mask2, vdata := bool_result \<rparr>] \<rparr>)"

text \<open>
  The correlated branch of \<open>NextMarkJoin\<close>. The source sets the mask from the last key
  by vector type (\<open>SetAllInvalid\<close> for a constant NULL, \<open>Copy\<close> for a flat vector,
  \<open>Set\<close> row by row otherwise); in the unified format these are the row-by-row branch.
\<close>

definition CorrelatedMarkJoinResult ::
  "externals \<Rightarrow> JoinHashTable \<Rightarrow> ScanStructure \<Rightarrow> DataChunk \<Rightarrow> DataChunk \<Rightarrow> DataChunk \<Rightarrow> DataChunk" where
  "CorrelatedMarkJoinResult ext ht ss keys input result =
     (let group_chunk = \<lparr> chunk_size = chunk_size keys,
                          chunk_data = take (correlated_types ht) (chunk_data keys) \<rparr>;
          (count_star, count) = FetchAggregates ext (correlated_counts ht) group_chunk;
          result1 = (reference_columns result input)\<lparr> chunk_size := chunk_size input \<rparr>;
          last_key = last (chunk_data keys);
          result_vector = (last (chunk_data result1))\<lparr> vsel := Incremental \<rparr>;
          mask1 = fold (\<lambda>i msk. Set_mask (STANDARD_VECTOR_SIZE ext) msk i
                                    (RowIsValid (vvalidity last_key) (get_index (vsel last_key) i)))
                    [0..<chunk_size input] (vvalidity result_vector);
          (bool_result, mask2) =
            fold (\<lambda>i (data, msk).
                    (let b = (case found_match ss of Some fm \<Rightarrow> fm ! i | None \<Rightarrow> False);
                         m1 = (if \<not> b \<and> count_star ! i > count ! i
                               then SetInvalid (STANDARD_VECTOR_SIZE ext) msk i else msk);
                         m2 = (if count_star ! i = 0 then SetValid m1 i else m1)
                     in (data[i := BoolVal b], m2)))
              [0..<chunk_size input] (vdata result_vector, mask1)
      in result1\<lparr> chunk_data := (chunk_data result1)
                    [length (chunk_data result1) - 1 :=
                       result_vector\<lparr> vvalidity := mask2, vdata := bool_result \<rparr>] \<rparr>)"

definition NextMarkJoin ::
  "externals \<Rightarrow> JoinHashTable \<Rightarrow> DataChunk \<Rightarrow> DataChunk \<Rightarrow> DataChunk \<Rightarrow> ScanStructure
   \<Rightarrow> (ScanStructure \<times> DataChunk) option" where
  "NextMarkJoin ext ht keys input result ss =
     (case ScanKeyMatches ext ht keys ss of
        None \<Rightarrow> None
      | Some ss1 \<Rightarrow>
          (let result1 = (if correlated_types ht = 0
                          then ConstructMarkJoinResult ext ht ss1 keys input result
                          else CorrelatedMarkJoinResult ext ht ss1 keys input result)
           in Some (ss1\<lparr> finished := True \<rparr>, result1)))"

text \<open>The loop of \<open>NextSingleJoin\<close>; \<open>result_sel\<close> collects the matched lanes.\<close>

partial_function (option) NextSingleJoin_loop ::
  "externals \<Rightarrow> JoinHashTable \<Rightarrow> DataChunk \<Rightarrow> ScanStructure \<Rightarrow> idx_t list
   \<Rightarrow> (ScanStructure \<times> idx_t list) option" where
  "NextSingleJoin_loop ext ht keys ss result_sel =
     (if ss_count ss > 0 then
        (let (match_sel, no_match_sel) = ResolvePredicates ext ht keys ss;
             match_count = length match_sel;
             no_match_count = ss_count ss - match_count
         in case mark_found match_sel (found_match ss) of
              None \<Rightarrow> None
            | Some fm \<Rightarrow>
                NextSingleJoin_loop ext ht keys
                  (AdvancePointers ht (ss\<lparr> found_match := fm \<rparr>)
                     (Other (Buffered no_match_sel)) no_match_count)
                  (result_sel @ match_sel))
      else Some (ss, result_sel))"

definition SetAllInvalid :: "nat \<Rightarrow> ValidityMask \<Rightarrow> idx_t \<Rightarrow> ValidityMask" where
  "SetAllInvalid cap m n =
     (let b = (case m of None \<Rightarrow> replicate cap True | Some b \<Rightarrow> b)
      in Some (replicate n False @ drop n b))"

text \<open>
  Modelled from the spec: \<open>RowOperations::Gather\<close> with a selection. For each lane
  \<open>idx\<close> of \<open>sel\<close> it reads the column at \<open>col_offset\<close> of the row the lane points to into
  entry \<open>idx\<close> of the vector.
\<close>

definition GatherAt ::
  "nat \<Rightarrow> memory \<Rightarrow> data_ptr_t list \<Rightarrow> idx_t list \<Rightarrow> idx_t \<Rightarrow> Vector \<Rightarrow> Vector" where
  "GatherAt cap mem ptrs sel col_offset v =
     fold (\<lambda>idx v. case columns mem (ptrs ! idx + col_offset) of
                      None \<Rightarrow> v\<lparr> vvalidity := SetInvalid cap (vvalidity v) idx \<rparr>
                    | Some x \<Rightarrow> v\<lparr> vdata := (vdata v)[idx := x] \<rparr>)
       sel v"

definition NextSingleJoin ::
  "externals \<Rightarrow> JoinHashTable \<Rightarrow> DataChunk \<Rightarrow> DataChunk \<Rightarrow> DataChunk \<Rightarrow> ScanStructure
   \<Rightarrow> (ScanStructure \<times> DataChunk) option" where
  "NextSingleJoin ext ht keys input result ss =
     (case NextSingleJoin_loop ext ht keys ss [] of
        None \<Rightarrow> None
      | Some (ss1, result_sel) \<Rightarrow>
          (let result1 = reference_columns result input;
               data2 = fold (\<lambda>i data.
                         (let vector = data ! (ColumnCount input + i);
                              msk = fold (\<lambda>idx msk. SetValid msk idx) result_sel
                                       (SetAllInvalid (STANDARD_VECTOR_SIZE ext) (vvalidity vector)
                                          (chunk_size input))
                          in data[ColumnCount input + i :=
                                GatherAt (STANDARD_VECTOR_SIZE ext) (heap ht) (pointers ss1) result_sel
                                  (offsets ht ! (i + condition_count ht))
                                  (vector\<lparr> vvalidity := msk \<rparr>)]))
                       [0..<build_count ht] (chunk_data result1)
           in Some (ss1\<lparr> finished := True \<rparr>,
                    result1\<lparr> chunk_data := data2, chunk_size := chunk_size input \<rparr>)))"

text \<open>
  \<open>ScanInnerJoin\<close> returns the matches of the first set of pointers that has any
  (\<open>result_vector[0..result_count)\<close>), or none when every chain has ended.
\<close>

partial_function (option) ScanInnerJoin ::
  "externals \<Rightarrow> JoinHashTable \<Rightarrow> DataChunk \<Rightarrow> ScanStructure \<Rightarrow> (ScanStructure \<times> idx_t list) option" where
  "ScanInnerJoin ext ht keys ss =
     (let result_vector = fst (ResolvePredicates ext ht keys ss);
          result_count = length result_vector;
          ss1 = ss\<lparr> found_match :=
                      (case found_match ss of
                         None \<Rightarrow> None
                       | Some fm \<Rightarrow> Some (fold (\<lambda>idx f. f[idx := True]) result_vector fm)) \<rparr>
      in if result_count > 0 then Some (ss1, result_vector)
         else (let ss2 = AdvancePointers_self ht ss1
               in if ss_count ss2 = 0 then Some (ss2, [])
                  else ScanInnerJoin ext ht keys ss2))"

definition NextInnerJoin ::
  "externals \<Rightarrow> JoinHashTable \<Rightarrow> DataChunk \<Rightarrow> DataChunk \<Rightarrow> DataChunk \<Rightarrow> ScanStructure
   \<Rightarrow> (ScanStructure \<times> DataChunk \<times> JoinHashTable) option" where
  "NextInnerJoin ext ht keys left result ss =
     (if ss_count ss = 0 then Some (ss, result, ht)
      else case ScanInnerJoin ext ht keys ss of
             None \<Rightarrow> None
           | Some (ss1, result_vector) \<Rightarrow>
               (let result_count = length result_vector
                in if result_count > 0 then
                     (let ht1 = (if IsRightOuterJoin (join_type ht)
                                 then ht\<lparr> heap := (heap ht)\<lparr> flags :=
                                          fold (\<lambda>idx fl. fl(pointers ss1 ! idx + tuple_size ht := True))
                                            result_vector (flags (heap ht)) \<rparr> \<rparr>
                                 else ht);
                          result1 = Slice result left result_vector result_count;
                          data2 = fold (\<lambda>i data. data[ColumnCount left + i :=
                                          Gather (heap ht1) (map (\<lambda>idx. pointers ss1 ! idx) result_vector)
                                            (offsets ht ! (i + condition_count ht))])
                                    [0..<build_count ht] (chunk_data result1)
                      in Some (AdvancePointers_self ht1 ss1, result1\<lparr> chunk_data := data2 \<rparr>, ht1))
                   else Some (ss1, result, ht)))"

definition NextLeftJoin ::
  "externals \<Rightarrow> JoinHashTable \<Rightarrow> DataChunk \<Rightarrow> DataChunk \<Rightarrow> DataChunk \<Rightarrow> ScanStructure
   \<Rightarrow> (ScanStructure \<times> DataChunk \<times> JoinHashTable) option" where
  "NextLeftJoin ext ht keys left result ss =
     (case NextInnerJoin ext ht keys left result ss of
        None \<Rightarrow> None
      | Some (ss1, result1, ht1) \<Rightarrow>
          if chunk_size result1 = 0 then
            (if chunk_size left = 0 then Some (ss1\<lparr> finished := True \<rparr>, result1, ht1)
             else case found_match ss1 of
                    None \<Rightarrow> None
                  | Some fm \<Rightarrow>
                      (let sel = filter (\<lambda>i. \<not> fm ! i) [0..<chunk_size left];
                           remaining_count = length sel;
                           result2 =
                             (if remaining_count > 0 then
                                (let sliced = Slice result1 left sel remaining_count
                                 in sliced\<lparr> chunk_data :=
                                      fold (\<lambda>i data. data[i := ConstantNull ext])
                                        [ColumnCount left..<ColumnCount sliced] (chunk_data sliced) \<rparr>)
                              else result1)
                       in Some (ss1\<lparr> finished := True \<rparr>, result2, ht1)))
          else Some (ss1, result1, ht1))"

text \<open>\<open>ScanStructure::Next\<close>: the scan structure, the result chunk and the table after the call.\<close>

definition with_table ::
  "JoinHashTable \<Rightarrow> (ScanStructure \<times> DataChunk) option
   \<Rightarrow> (error + ScanStructure \<times> DataChunk \<times> JoinHashTable) option" where
  "with_table ht r = map_option (\<lambda>(ss, result). Inr (ss, result, ht)) r"

definition Next ::
  "externals \<Rightarrow> JoinHashTable \<Rightarrow> DataChunk \<Rightarrow> DataChunk \<Rightarrow> DataChunk \<Rightarrow> ScanStructure
   \<Rightarrow> (error + ScanStructure \<times> DataChunk \<times> JoinHashTable) option" where
  "Next ext ht keys left result ss =
     (if finished ss then Some (Inr (ss, result, ht))
      else case join_type ht of
             INNER \<Rightarrow> map_option Inr (NextInnerJoin ext ht keys left result ss)
           | RIGHT \<Rightarrow> map_option Inr (NextInnerJoin ext ht keys left result ss)
           | SEMI \<Rightarrow> with_table ht (NextSemiJoin ext ht keys left result ss)
           | MARK \<Rightarrow> with_table ht (NextMarkJoin ext ht keys left result ss)
           | ANTI \<Rightarrow> with_table ht (NextAntiJoin ext ht keys left result ss)
           | OUTER \<Rightarrow> map_option Inr (NextLeftJoin ext ht keys left result ss)
           | LEFT \<Rightarrow> map_option Inr (NextLeftJoin ext ht keys left result ss)
           | SINGLE \<Rightarrow> with_table ht (NextSingleJoin ext ht keys left result ss)
           | INVALID \<Rightarrow> Some (Inl (InternalException ''Unhandled join type in JoinHashTable'')))"

text \<open>The live lanes of a scan structure.\<close>

definition live_lanes :: "ScanStructure \<Rightarrow> idx_t list" where
  "live_lanes ss = take (ss_count ss) (sel_vector ss)"

text \<open>
  A well-formed scan structure: the live lanes are inside the selection buffer, distinct
  and lanes of the pointer vector.
\<close>

definition ss_wf :: "ScanStructure \<Rightarrow> bool" where
  "ss_wf ss =
     (ss_count ss \<le> length (sel_vector ss) \<and> distinct (live_lanes ss) \<and>
      list_all (\<lambda>idx. idx < length (pointers ss)) (live_lanes ss))"

text \<open>
  Every live lane points to a row (not null) whose chain ends after at most \<open>n\<close> rows.
\<close>

definition chains_end_within :: "JoinHashTable \<Rightarrow> nat \<Rightarrow> ScanStructure \<Rightarrow> bool" where
  "chains_end_within ht n ss =
     list_all (\<lambda>idx. pointers ss ! idx \<noteq> 0 \<and>
                      chain_walk n (cells (heap ht)) (pointer_offset ht) (pointers ss ! idx) \<noteq> None)
       (live_lanes ss)"

text \<open>One round of the matching loops: advancing the lanes without a match.\<close>

definition advance_no_match ::
  "externals \<Rightarrow> JoinHashTable \<Rightarrow> DataChunk \<Rightarrow> ScanStructure \<Rightarrow> bool list option \<Rightarrow> ScanStructure" where
  "advance_no_match ext ht keys ss fm =
     AdvancePointers ht (ss\<lparr> found_match := fm \<rparr>)
       (Other (Buffered (snd (ResolvePredicates ext ht keys ss))))
       (ss_count ss - length (fst (ResolvePredicates ext ht keys ss)))"

text \<open>
  A key column that the loop over the join keys of \<open>ConstructMarkJoinResult\<close> copies
  into the mask: its null-equals flag is false and its validity mask has a buffer.
\<close>

definition masked_key_column :: "JoinHashTable \<Rightarrow> DataChunk \<Rightarrow> idx_t \<Rightarrow> bool" where
  "masked_key_column ht join_keys c =
     (\<not> null_values_are_equal ht ! c \<and> \<not> AllValid (vvalidity (chunk_data join_keys ! c)))"

text \<open>\<open>found_match[r]\<close>, false when there is no array.\<close>

definition lane_found :: "ScanStructure \<Rightarrow> idx_t \<Rightarrow> bool" where
  "lane_found ss r = (case found_match ss of Some fm \<Rightarrow> fm ! r | None \<Rightarrow> False)"

text \<open>A mask that is all valid without a buffer, or has a buffer of \<open>cap\<close> rows.\<close>

definition mask_cap :: "nat \<Rightarrow> ValidityMask \<Rightarrow> bool" where
  "mask_cap cap m = (case m of None \<Rightarrow> True | Some b \<Rightarrow> length b = cap)"

text \<open>The rows of one key column written into the mask.\<close>

definition set_key_rows :: "externals \<Rightarrow> DataChunk \<Rightarrow> idx_t \<Rightarrow> ValidityMask \<Rightarrow> ValidityMask" where
  "set_key_rows ext join_keys c msk =
     fold (\<lambda>i msk. Set_mask (STANDARD_VECTOR_SIZE ext) msk i
                      (RowIsValid (vvalidity (chunk_data join_keys ! c))
                         (get_index (vsel (chunk_data join_keys ! c)) i)))
       [0..<chunk_size join_keys] msk"

text \<open>The slots of the pointer array that a probe of the keys reads: one per kept key row.\<close>

definition probe_slots :: "externals \<Rightarrow> JoinHashTable \<Rightarrow> DataChunk \<Rightarrow> idx_t list" where
  "probe_slots ext ht keys =
     map (\<lambda>r. hash_row ext (key_row ht keys r) AND bitmask ht)
       (filter (\<lambda>r. \<not> null_in_key_column ht keys r) [0..<chunk_size keys])"

subsection \<open>Example inputs\<close>

text \<open>
  A small instance of the collaborators: vectors of four lanes, a row collection that
  hands out consecutive 32-byte rows from address 1000, a hash that adds up the
  integer keys of a row, and a join predicate that compares the first key column with
  the first column of the build row.
\<close>

fun ex_key_value :: "val option \<Rightarrow> nat" where
  "ex_key_value (Some (IntVal k)) = nat k"
| "ex_key_value _ = 0"

definition ex_ext :: externals where
  "ex_ext =
     \<lparr> STANDARD_VECTOR_SIZE = 4, BLOCK_SIZE = 64, sizeof_data_ptr_t = 8, INITIAL_RADIX_BITS = 2,
       rdc_Build = (\<lambda>c n. (c\<lparr> rdc_count := rdc_count c + n \<rparr>,
                             map (\<lambda>i. 1000 + 32 * (rdc_count c + i)) [0..<n])),
       hash_row = (\<lambda>vs. sum_list (map ex_key_value vs)),
       UpdateHistogram = (\<lambda>hashes histogram bits. histogram),
       Scatter = (\<lambda>chunk locations lanes st. st),
       Match = (\<lambda>ht keys idx row. GetValue (chunk_data keys ! 0) idx = columns (heap ht) row),
       FetchAggregates = (\<lambda>counts groups. ([], [])) \<rparr>"

definition ex_mem :: memory where
  "ex_mem = \<lparr> cells = (\<lambda>a. 0), flags = (\<lambda>a. False), columns = (\<lambda>a. None) \<rparr>"

definition flat_ints :: "int list \<Rightarrow> Vector" where
  "flat_ints xs = \<lparr> vsel = Incremental, vvalidity = None, vdata = map IntVal xs \<rparr>"

definition flat_ints_mask :: "int list \<Rightarrow> bool list \<Rightarrow> Vector" where
  "flat_ints_mask xs m = \<lparr> vsel = Incremental, vvalidity = Some m, vdata = map IntVal xs \<rparr>"

text \<open>
  A table for an inner join on \<open>k = x AND a < y\<close>: one equality condition and one
  other comparison, no payload column.
\<close>

definition ex_ht_lt :: JoinHashTable where
  "ex_ht_lt = JoinHashTable_new ex_ext [COMPARE_EQUAL, COMPARE_LESSTHAN] 0 INNER [0, 8, 16] 24 ex_mem"

text \<open>One build row \<open>(5, NULL)\<close>: the equality key is 5, the key of the comparison is NULL.\<close>

definition ex_keys_lt :: DataChunk where
  "ex_keys_lt = \<lparr> chunk_size = 1, chunk_data = [flat_ints [5], flat_ints_mask [0] [False]] \<rparr>"

definition ex_payload_none :: DataChunk where
  "ex_payload_none = \<lparr> chunk_size = 1, chunk_data = [] \<rparr>"

text \<open>A table for an inner join on \<open>k = x\<close> and two build batches \<open>[7, NULL]\<close> and \<open>[3]\<close>.\<close>

definition ex_ht_eq :: JoinHashTable where
  "ex_ht_eq = JoinHashTable_new ex_ext [COMPARE_EQUAL] 0 INNER [0, 8] 16 ex_mem"

definition ex_batches :: "(DataChunk \<times> DataChunk) list" where
  "ex_batches =
     [(\<lparr> chunk_size = 2, chunk_data = [flat_ints_mask [7, 0] [True, False]] \<rparr>,
       \<lparr> chunk_size = 2, chunk_data = [] \<rparr>),
      (\<lparr> chunk_size = 1, chunk_data = [flat_ints [3]] \<rparr>,
       \<lparr> chunk_size = 1, chunk_data = [] \<rparr>)]"

definition ex_empty_chunk :: DataChunk where
  "ex_empty_chunk = \<lparr> chunk_size = 0, chunk_data = [flat_ints []] \<rparr>"

text \<open>
  A table whose histogram over two radix bits counts one row in each of the four
  partitions, with 16-byte rows.
\<close>

definition ex_ht_hist :: JoinHashTable where
  "ex_ht_hist = ex_ht_eq\<lparr> histogram_ptr := [1, 1, 1, 1] \<rparr>"

text \<open>
  A table of three 16-byte rows in one block at address 1000, the hash of each row in its
  cell at \<open>pointer_offset = 8\<close>: the hashes 5, 21 and 2. With a pointer array of 16 slots
  the first two rows share slot 5.
\<close>

definition ex_ht_rows :: JoinHashTable where
  "ex_ht_rows =
     ex_ht_eq\<lparr> block_collection := \<lparr> blocks = [\<lparr> block_ptr = 1000, block_count = 3 \<rparr>],
                                     rdc_count = 3 \<rparr>,
               heap := ex_mem\<lparr> cells := (\<lambda>a. 0)(1008 := 5, 1024 := 21, 1040 := 2) \<rparr> \<rparr>"

text \<open>
  A table for a right outer join on \<open>k = x\<close> with one payload column: 32-byte rows, the
  payload at offset 8, the found flag at \<open>tuple_size = 16\<close>, the hash and next pointer at
  \<open>pointer_offset = 24\<close>. Two blocks of three rows at 1000 and 2000; only the second row
  of the first block has found a match.
\<close>

definition ex_ht_outer :: JoinHashTable where
  "ex_ht_outer =
     (JoinHashTable_new ex_ext [COMPARE_EQUAL] 1 RIGHT [0, 8, 16, 24] 32
        (ex_mem\<lparr> flags := (\<lambda>a. False)(1048 := True),
                 columns := (\<lambda>a. None)(1008 := Some (IntVal 10), 1040 := Some (IntVal 20),
                                         2008 := Some (IntVal 30)) \<rparr>))
     \<lparr> block_collection :=
         \<lparr> blocks = [\<lparr> block_ptr = 1000, block_count = 3 \<rparr>,
                     \<lparr> block_ptr = 2000, block_count = 3 \<rparr>],
           rdc_count = 6 \<rparr> \<rparr>"

text \<open>A result chunk of one probe column and one build column.\<close>

definition ex_result :: DataChunk where
  "ex_result = \<lparr> chunk_size = 0, chunk_data = [flat_ints [], flat_ints []] \<rparr>"

text \<open>
  A table with one chain of two rows, the row at 1016 in front of the row at 1000, and a
  scan structure whose lane 0 points to the head of the chain.
\<close>

definition ex_ht_chain :: JoinHashTable where
  "ex_ht_chain = ex_ht_eq\<lparr> heap := ex_mem\<lparr> cells := (\<lambda>a. 0)(1024 := 1000) \<rparr> \<rparr>"

definition ex_ss :: ScanStructure where
  "ex_ss = \<lparr> pointers = [1016, 0, 0, 0], sel_vector = [0, 0, 0, 0], ss_count = 1,
             found_match = Some [False, False, False, False], finished = False \<rparr>"

text \<open>The same table for a semi join, and a probe batch of one row with the key 5.\<close>

definition ex_ht_semi :: JoinHashTable where
  "ex_ht_semi = ex_ht_chain\<lparr> join_type := SEMI \<rparr>"

definition ex_probe_keys :: DataChunk where
  "ex_probe_keys = \<lparr> chunk_size = 1, chunk_data = [flat_ints [5]] \<rparr>"

text \<open>
  A mark join on \<open>k = x AND a < y\<close>, not correlated, built without any NULL. A probe batch
  of two rows \<open>(5, NULL)\<close> and \<open>(6, 1)\<close>, of which the second has found a match, and a
  second batch \<open>(NULL, 1)\<close> and \<open>(6, NULL)\<close> in which both key columns have a validity
  buffer.
\<close>

definition ex_ht_mark :: JoinHashTable where
  "ex_ht_mark = JoinHashTable_new ex_ext [COMPARE_EQUAL, COMPARE_LESSTHAN] 0 MARK [0, 8, 16] 24 ex_mem"

definition ex_mark_keys :: DataChunk where
  "ex_mark_keys =
     \<lparr> chunk_size = 2, chunk_data = [flat_ints [5, 6], flat_ints_mask [0, 1] [False, True]] \<rparr>"

definition ex_mark_child :: DataChunk where
  "ex_mark_child = \<lparr> chunk_size = 2, chunk_data = [flat_ints [5, 6]] \<rparr>"

definition ex_mark_result :: DataChunk where
  "ex_mark_result =
     \<lparr> chunk_size = 0,
       chunk_data = [flat_ints [0, 0, 0, 0],
                     \<lparr> vsel = Incremental, vvalidity = None,
                       vdata = [BoolVal False, BoolVal False, BoolVal False, BoolVal False] \<rparr>] \<rparr>"

definition ex_ss_mark :: ScanStructure where
  "ex_ss_mark = \<lparr> pointers = [0, 0, 0, 0], sel_vector = [1, 0, 0, 0], ss_count = 0,
                  found_match = Some [False, True, False, False], finished = False \<rparr>"

definition ex_mark_keys2 :: DataChunk where
  "ex_mark_keys2 =
     \<lparr> chunk_size = 2,
       chunk_data = [flat_ints_mask [0, 6] [False, True], flat_ints_mask [1, 0] [True, False]] \<rparr>"

text \<open>The table for \<open>k = x\<close> finalized without any row.\<close>

definition ex_ht_empty :: JoinHashTable where
  "ex_ht_empty = (Finalize_allocate ex_ext ex_ht_eq)\<lparr> finalized := True \<rparr>"

section \<open>Properties\<close>

subsection \<open>Key preparation keeps exactly the rows without a NULL in a filtered column\<close>

lemma src_index_update:
  "rc \<le> i \<Longrightarrow> map (src_index src (result[rc := x])) [Suc i..<count] = map (src_index src result) [Suc i..<count]"
  by (cases src) auto

lemma FilterNullValues_loop_spec:
  "rc \<le> i \<Longrightarrow> i \<le> count \<Longrightarrow> count \<le> length result \<Longrightarrow>
   (case FilterNullValues_loop vd src count i (result, rc) of (res', rc') \<Rightarrow>
     length res' = length result \<and>
     rc' = rc + length (filter (row_valid vd) (map (src_index src result) [i..<count])) \<and>
     take rc' res' = take rc result @ filter (row_valid vd) (map (src_index src result) [i..<count]))"
proof (induction "count - i" arbitrary: i result rc)
  case 0
  then show ?case by (subst FilterNullValues_loop.simps) simp
next
  case (Suc n)
  then have lt: "i < count" by simp
  have up: "[i..<count] = i # [Suc i..<count]" using lt by (simp add: upt_conv_Cons)
  let ?idx = "src_index src result i"
  show ?case
  proof (cases "row_valid vd ?idx")
    case True
    let ?r2 = "result[rc := ?idx]"
    have step: "FilterNullValues_loop vd src count i (result, rc) =
                FilterNullValues_loop vd src count (Suc i) (?r2, Suc rc)"
      using lt True by (subst FilterNullValues_loop.simps) (simp add: row_valid_def)
    have ih: "case FilterNullValues_loop vd src count (Suc i) (?r2, Suc rc) of (res', rc') \<Rightarrow>
       length res' = length ?r2 \<and>
       rc' = Suc rc + length (filter (row_valid vd) (map (src_index src ?r2) [Suc i..<count])) \<and>
       take rc' res' = take (Suc rc) ?r2 @ filter (row_valid vd) (map (src_index src ?r2) [Suc i..<count])"
      using Suc.hyps(2) Suc.prems lt by (intro Suc.hyps(1)) auto
    have tk: "take (Suc rc) ?r2 = take rc result @ [?idx]"
      using Suc.prems lt by (simp add: take_Suc_conv_app_nth)
    show ?thesis
      using ih True unfolding step up src_index_update[OF Suc.prems(1)] tk
      by (auto split: prod.splits)
  next
    case False
    have step: "FilterNullValues_loop vd src count i (result, rc) =
                FilterNullValues_loop vd src count (Suc i) (result, rc)"
      using lt False by (subst FilterNullValues_loop.simps) (simp add: row_valid_def)
    have ih: "case FilterNullValues_loop vd src count (Suc i) (result, rc) of (res', rc') \<Rightarrow>
       length res' = length result \<and>
       rc' = rc + length (filter (row_valid vd) (map (src_index src result) [Suc i..<count])) \<and>
       take rc' res' = take rc result @ filter (row_valid vd) (map (src_index src result) [Suc i..<count])"
      using Suc.hyps(2) Suc.prems lt by (intro Suc.hyps(1)) auto
    show ?thesis
      using ih False unfolding step up
      by (auto split: prod.splits)
  qed
qed


lemma FilterNullValues_spec:
  assumes "count \<le> length sel"
  shows "case FilterNullValues vd src count sel of (sel', n) \<Rightarrow>
     length sel' = length sel \<and> n \<le> count \<and>
     selected Same sel' n = filter (row_valid vd) (selected src sel count)"
proof -
  obtain sel' n where r: "FilterNullValues_loop vd src count 0 (sel, 0) = (sel', n)"
    by (cases "FilterNullValues_loop vd src count 0 (sel, 0)")
  from FilterNullValues_loop_spec[of 0 0 count sel vd src] assms r
  have l: "length sel' = length sel"
    and n: "n = length (filter (row_valid vd) (map (src_index src sel) [0..<count]))"
    and t: "take n sel' = filter (row_valid vd) (map (src_index src sel) [0..<count])"
    by auto
  have le: "n \<le> count" unfolding n
    by (rule order_trans[OF length_filter_le]) simp
  have "selected Same sel' n = take n sel'"
    using le l assms unfolding selected_def by (intro nth_equalityI) auto
  then show ?thesis using r l le t by (simp add: FilterNullValues_def selected_def)
qed


lemma PrepareKeys_loop_spec:
  "added \<le> length sel \<Longrightarrow>
   (case PrepareKeys_loop nve kds i (cur, sel, added) of (cur', sel', added') \<Rightarrow>
     length sel' = length sel \<and> added' \<le> added \<and>
     selected cur' sel' added' =
       filter (\<lambda>r. \<forall>j<length kds. nve ! (i + j) \<or> row_valid (kds ! j) r) (selected cur sel added))"
proof (induction kds arbitrary: i cur sel added)
  case Nil
  then show ?case by simp
next
  case (Cons kd kds)
  have split_all: "\<And>r. (\<forall>j<Suc (length kds). nve ! (i + j) \<or> row_valid ((kd # kds) ! j) r) =
        ((nve ! i \<or> row_valid kd r) \<and> (\<forall>j<length kds. nve ! Suc (i + j) \<or> row_valid (kds ! j) r))"
    by (auto simp: less_Suc_eq_0_disj)
  show ?case
  proof (cases "nve ! i")
    case True
    then show ?thesis using Cons.IH[OF Cons.prems, of "Suc i" cur] by (simp add: split_all)
  next
    case nv: False
    show ?thesis
    proof (cases "AllValid (vvalidity kd)")
      case True
      then have "\<And>r. row_valid kd r" by (simp add: AllValid_def row_valid_def RowIsValid_def)
      then show ?thesis using nv True Cons.IH[OF Cons.prems, of "Suc i" cur] by (simp add: split_all)
    next
      case False
      obtain sel' n where f: "FilterNullValues kd cur added sel = (sel', n)"
        by (cases "FilterNullValues kd cur added sel")
      from FilterNullValues_spec[OF Cons.prems, of kd cur] f
      have l: "length sel' = length sel" and le: "n \<le> added"
        and s: "selected Same sel' n = filter (row_valid kd) (selected cur sel added)"
        by auto
      have n': "n \<le> length sel'" using l le Cons.prems by simp
      show ?thesis
        using nv False f Cons.IH[OF n', of "Suc i" Same] l le s
        by (auto simp: split_all split: prod.splits)
    qed
  qed
qed

lemma null_in_key_column_iff:
  "(\<not> null_in_key_column ht keys r) =
   (\<forall>j<length (chunk_data keys). null_values_are_equal ht ! (0 + j) \<or> row_valid (chunk_data keys ! j) r)"
  by (auto simp: null_in_key_column_def key_is_null_def row_valid_def ColumnCount_def)

lemma selected_Incremental: "selected (Other Incremental) sel n = [0..<n]"
  by (simp add: selected_def map_idI)

lemma PrepareKeys_spec:
  assumes "chunk_size keys \<le> length sel" "\<not> (build_side \<and> IsRightOuterJoin (join_type ht))"
  shows "case PrepareKeys ht keys sel build_side of (cur, sel', added) \<Rightarrow>
     length sel' = length sel \<and> added \<le> chunk_size keys \<and>
     selected cur sel' added = filter (\<lambda>r. \<not> null_in_key_column ht keys r) [0..<chunk_size keys]"
  using PrepareKeys_loop_spec[OF assms(1), where nve="null_values_are_equal ht" and kds="chunk_data keys" and i=0 and cur="Other Incremental"] assms(2)
  unfolding PrepareKeys_def Let_def null_in_key_column_iff selected_Incremental
  by (auto split: prod.splits)

lemma PrepareKeys_right_outer:
  "IsRightOuterJoin (join_type ht) \<Longrightarrow>
   PrepareKeys ht keys sel True = (Other Incremental, sel, chunk_size keys)"
  by (simp add: PrepareKeys_def)

lemma PrepareKeys_added_less:
  assumes "chunk_size keys \<le> length sel" "\<not> (build_side \<and> IsRightOuterJoin (join_type ht))"
  shows "(snd (snd (PrepareKeys ht keys sel build_side)) < chunk_size keys) =
         (\<exists>r<chunk_size keys. null_in_key_column ht keys r)"
proof -
  obtain cur sel' added where p: "PrepareKeys ht keys sel build_side = (cur, sel', added)"
    by (cases "PrepareKeys ht keys sel build_side")
  let ?P = "\<lambda>r. \<not> null_in_key_column ht keys r"
  from PrepareKeys_spec[OF assms] p
  have "selected cur sel' added = filter ?P [0..<chunk_size keys]" by simp
  then have "length (filter ?P [0..<chunk_size keys]) = added"
    by (metis length_map length_upt minus_nat.diff_0 selected_def)
  moreover have "(length (filter ?P [0..<chunk_size keys]) < chunk_size keys) =
                 (\<exists>r<chunk_size keys. null_in_key_column ht keys r)"
  proof
    assume "length (filter ?P [0..<chunk_size keys]) < chunk_size keys"
    then have "filter ?P [0..<chunk_size keys] \<noteq> [0..<chunk_size keys]" by auto
    then obtain r where "r \<in> set [0..<chunk_size keys]" "\<not> ?P r"
      by (meson filter_True)
    then show "\<exists>r<chunk_size keys. null_in_key_column ht keys r" by auto
  next
    assume "\<exists>r<chunk_size keys. null_in_key_column ht keys r"
    then obtain r where "r \<in> set [0..<chunk_size keys]" "\<not> ?P r" by auto
    then have "length (filter ?P [0..<chunk_size keys]) < length [0..<chunk_size keys]"
      by (rule length_filter_less)
    then show "length (filter ?P [0..<chunk_size keys]) < chunk_size keys" by simp
  qed
  ultimately show ?thesis using p by simp
qed

lemma PrepareKeys_fields:
  "null_values_are_equal ht' = null_values_are_equal ht \<Longrightarrow> join_type ht' = join_type ht \<Longrightarrow>
   PrepareKeys ht' keys sel b = PrepareKeys ht keys sel b"
  by (simp add: PrepareKeys_def Let_def)

lemma Build_has_null:
  assumes "chunk_size keys \<le> STANDARD_VECTOR_SIZE ext"
  shows "has_null (Build ext ht keys payload) =
     (has_null ht \<or> (\<not> IsRightOuterJoin (join_type ht) \<and>
                      (\<exists>r<chunk_size keys. null_in_key_column ht keys r)))"
proof (cases "chunk_size keys = 0")
  case True
  then show ?thesis by (simp add: Build_def)
next
  case False
  let ?sel = "replicate (STANDARD_VECTOR_SIZE ext) (0::nat)"
  let ?ht1 = "(if join_type ht = MARK \<and> correlated_types ht \<noteq> 0
               then ht\<lparr> correlated_counts := correlated_counts ht @
                         [(\<lparr> chunk_size = chunk_size keys,
                             chunk_data = take (correlated_types ht) (chunk_data keys) \<rparr>,
                           \<lparr> chunk_size = chunk_size keys,
                             chunk_data = [chunk_data keys ! correlated_types ht] \<rparr>)] \<rparr>
               else ht)"
  have pk: "PrepareKeys ?ht1 keys ?sel True = PrepareKeys ht keys ?sel True"
    by (rule PrepareKeys_fields) auto
  have hn1: "has_null ?ht1 = has_null ht" by simp
  obtain cur sel' added where p: "PrepareKeys ht keys ?sel True = (cur, sel', added)"
    by (cases "PrepareKeys ht keys ?sel True")
  have hn: "has_null (Build ext ht keys payload) = (has_null ht \<or> added < chunk_size keys)"
    using False pk p hn1 by (simp add: Build_def Let_def split: prod.splits)
  show ?thesis
  proof (cases "IsRightOuterJoin (join_type ht)")
    case True
    then have "added = chunk_size keys" using p by (simp add: PrepareKeys_right_outer)
    then show ?thesis using hn True by simp
  next
    case ro: False
    have "(added < chunk_size keys) = (\<exists>r<chunk_size keys. null_in_key_column ht keys r)"
      using PrepareKeys_added_less[of keys ?sel True ht] assms ro p by simp
    then show ?thesis using hn ro by simp
  qed
qed

lemma Build_keeps_conditions:
  "null_values_are_equal (Build ext ht keys payload) = null_values_are_equal ht \<and>
   join_type (Build ext ht keys payload) = join_type ht \<and>
   equality_count (Build ext ht keys payload) = equality_count ht"
  by (simp add: Build_def Let_def split: prod.splits)

subsection \<open>The flag has\_null\<close>

lemma Build_all_keeps_conditions:
  "null_values_are_equal (Build_all ext ht batches) = null_values_are_equal ht \<and>
   join_type (Build_all ext ht batches) = join_type ht"
  by (induction batches arbitrary: ht) (auto simp: Build_keeps_conditions)

lemma null_in_key_column_fields:
  "null_values_are_equal ht' = null_values_are_equal ht \<Longrightarrow>
   null_in_key_column ht' keys r = null_in_key_column ht keys r"
  by (simp add: null_in_key_column_def)

lemma Build_all_has_null:
  "list_all (\<lambda>(keys, payload). chunk_size keys \<le> STANDARD_VECTOR_SIZE ext) batches \<Longrightarrow>
   has_null (Build_all ext ht batches) =
     (has_null ht \<or> (\<not> IsRightOuterJoin (join_type ht) \<and>
        (\<exists>(keys, payload) \<in> set batches. \<exists>r<chunk_size keys. null_in_key_column ht keys r)))"
proof (induction batches arbitrary: ht)
  case Nil
  then show ?case by simp
next
  case (Cons b batches)
  obtain keys payload where b: "b = (keys, payload)" by (cases b)
  let ?ht' = "Build ext ht keys payload"
  have k: "chunk_size keys \<le> STANDARD_VECTOR_SIZE ext" and rest:
    "list_all (\<lambda>(keys, payload). chunk_size keys \<le> STANDARD_VECTOR_SIZE ext) batches"
    using Cons.prems b by auto
  have f: "\<And>ks r. null_in_key_column ?ht' ks r = null_in_key_column ht ks r"
    by (rule null_in_key_column_fields) (simp add: Build_keeps_conditions)
  have ih: "has_null (Build_all ext ?ht' batches) =
     (has_null ?ht' \<or> (\<not> IsRightOuterJoin (join_type ht) \<and>
        (\<exists>(keys, payload) \<in> set batches. \<exists>r<chunk_size keys. null_in_key_column ht keys r)))"
    using Cons.IH[OF rest, of ?ht'] by (simp add: f Build_keeps_conditions)
  have "has_null (Build_all ext ht (b # batches)) = has_null (Build_all ext ?ht' batches)"
    using b by simp
  also note ih
  also note Build_has_null[OF k, of ht payload]
  finally show ?case using b by auto
qed

text \<open>
  C6, as the code has it. After any sequence of \<open>Build\<close> calls, \<open>has_null\<close> is true
  if and only if it was true before or some row of some batch was dropped by key
  preparation, that is, the join is not a right or full outer join and the row holds a
  NULL in a key column whose null-equals flag is false. The key columns are the columns
  of all join conditions, the equality conditions and the other comparisons alike. For a
  right or full outer join \<open>Build\<close> never changes \<open>has_null\<close>.
\<close>

theorem has_null_iff_key_row_dropped:
  assumes "list_all (\<lambda>(keys, payload). chunk_size keys \<le> STANDARD_VECTOR_SIZE ext) batches"
  shows "(has_null (Build_all ext ht batches) =
           (has_null ht \<or> (\<not> IsRightOuterJoin (join_type ht) \<and>
              (\<exists>(keys, payload) \<in> set batches. \<exists>r<chunk_size keys. null_in_key_column ht keys r)))) \<and>
         (IsRightOuterJoin (join_type ht) \<longrightarrow> has_null (Build_all ext ht batches) = has_null ht)"
  using Build_all_has_null[OF assms, of ht] by auto

lemmas ex_simps = ex_ext_def ex_mem_def flat_ints_def flat_ints_mask_def JoinHashTable_new_def
  InitializeHistogram_def

theorem has_null_iff_key_row_dropped_witness:
  "has_null (Build_all ex_ext ex_ht_eq ex_batches) \<and> \<not> has_null ex_ht_eq"
proof -
  have h: "list_all (\<lambda>(keys, payload). chunk_size keys \<le> STANDARD_VECTOR_SIZE ex_ext) ex_batches"
    by (simp add: ex_batches_def ex_ext_def)
  have n: "null_in_key_column ex_ht_eq (fst (ex_batches ! 0)) 1"
    by (simp add: null_in_key_column_def key_is_null_def ex_batches_def ex_ht_eq_def ex_simps
        RowIsValid_def ColumnCount_def)
  have "ex_batches ! 0 \<in> set ex_batches" "(1::nat) < chunk_size (fst (ex_batches ! 0))"
    by (simp_all add: ex_batches_def)
  with n have "\<exists>(keys, payload) \<in> set ex_batches. \<exists>r<chunk_size keys. null_in_key_column ex_ht_eq keys r"
    by (metis (mono_tags, lifting) case_prod_beta)
  moreover have "\<not> IsRightOuterJoin (join_type ex_ht_eq)" "\<not> has_null ex_ht_eq"
    by (simp_all add: ex_ht_eq_def ex_simps IsRightOuterJoin_def)
  ultimately show ?thesis
    using has_null_iff_key_row_dropped[OF h, of ex_ht_eq] by blast
qed

text \<open>
  C6 as stated restricts the dropped rows to those with a NULL in an equality column.
  For the join condition \<open>k = x AND a < y\<close> the build row \<open>(5, NULL)\<close> has no NULL in
  its equality column, and \<open>Build\<close> drops it and sets \<open>has_null\<close>.
\<close>

theorem has_null_equality_column_counterexample:
  "has_null (Build ex_ext ex_ht_lt ex_keys_lt ex_payload_none) \<and>
   \<not> has_null ex_ht_lt \<and>
   chunk_size ex_keys_lt = 1 \<and>
   \<not> null_in_equality_column ex_ht_lt ex_keys_lt 0"
  by (simp add: Build_def PrepareKeys_def FilterNullValues_def FilterNullValues_loop.simps
      ex_ht_lt_def ex_keys_lt_def ex_payload_none_def ex_simps IsRightOuterJoin_def AllValid_def
      RowIsValid_def null_in_equality_column_def key_is_null_def is_equality_comparison_def)

subsection \<open>Build of an empty chunk\<close>

text \<open>
  C10. \<open>Build\<close> with a keys chunk of size zero returns the table as it was: the block
  collection, the string heap, the histogram, \<open>has_null\<close> and every other field are
  unchanged.
\<close>

theorem Build_empty_chunk_unchanged:
  "chunk_size keys = 0 \<Longrightarrow> Build ext ht keys payload = ht"
  by (simp add: Build_def)

theorem Build_empty_chunk_unchanged_witness:
  "Build ex_ext ex_ht_eq ex_empty_chunk ex_empty_chunk = ex_ht_eq"
  using Build_empty_chunk_unchanged[of ex_empty_chunk ex_ext ex_ht_eq ex_empty_chunk]
  by (simp add: ex_empty_chunk_def)

subsection \<open>Reducing the histogram\<close>

lemma ReduceHistogram_loop_stops: "ReduceHistogram_loop avg_row_size ht = Some ht"
  by (subst ReduceHistogram_loop.simps) (simp add: PartitionsFitInMemory_def Let_def)

text \<open>
  C2, evaluated on the code. The table has four radix partitions of one 16-byte row
  each. The histogram reduced to one bit has two partitions of two rows, 32 bytes each
  by the estimate, which fit in a budget of one megabyte. \<open>ReduceHistogram\<close> returns
  with the four partitions it started with: \<open>PartitionsFitInMemory\<close> answers false
  whatever the histogram, so the reduction is never applied.
\<close>

theorem ReduceHistogram_fitting_not_reduced:
  "partitions_fit_spec 1048576
     (RadixPartitioning_ReduceHistogram (histogram_ptr ex_ht_hist) 2 1) (0 + entry_size ex_ht_hist) \<and>
   current_radix_bits ex_ht_hist = 2 \<and>
   RadixPartitioning_ReduceHistogram (histogram_ptr ex_ht_hist) 2 1 = [2, 2] \<and>
   map_option histogram_ptr (ReduceHistogram ex_ht_hist 0) = Some [1, 1, 1, 1]"
  by (simp add: ReduceHistogram_def ReduceHistogram_loop_stops
      partitions_fit_spec_def RadixPartitioning_ReduceHistogram_def ex_ht_hist_def ex_ht_eq_def
      JoinHashTable_new_def ex_ext_def InitializeHistogram_def upt_rec)

subsection \<open>The capacity of the pointer array\<close>

lemma next_pow2_from_spec:
  "p = 2 ^ j \<Longrightarrow> (j = 0 \<or> 2 ^ (j - 1) < v) \<Longrightarrow>
   \<exists>k. next_pow2_from p v = 2 ^ k \<and> v \<le> 2 ^ k \<and> (k = 0 \<or> 2 ^ (k - 1) < v)"
proof (induction p v arbitrary: j rule: next_pow2_from.induct)
  case (1 p v)
  show ?case
  proof (cases "v \<le> p")
    case True
    then show ?thesis using 1(2,3) by (subst next_pow2_from.simps) auto
  next
    case False
    have p0: "p \<noteq> 0" using 1(2) by simp
    have "\<exists>k. next_pow2_from (2 * p) v = 2 ^ k \<and> v \<le> 2 ^ k \<and> (k = 0 \<or> 2 ^ (k - 1) < v)"
      using 1(1)[of "Suc j"] p0 False 1(2) by simp
    then show ?thesis using False p0 by (subst next_pow2_from.simps) simp
  qed
qed

lemma NextPowerOfTwo_spec:
  "\<exists>k. NextPowerOfTwo v = 2 ^ k \<and> v \<le> 2 ^ k \<and> (k = 0 \<or> 2 ^ (k - 1) < v)"
  unfolding NextPowerOfTwo_def by (rule next_pow2_from_spec[of 1 0]) auto

lemma NextPowerOfTwo_bound:
  assumes "v \<le> 2 ^ n"
  shows "NextPowerOfTwo v \<le> 2 ^ n"
proof -
  obtain k where k: "NextPowerOfTwo v = 2 ^ k" "k = 0 \<or> 2 ^ (k - 1) < v"
    using NextPowerOfTwo_spec[of v] by blast
  show ?thesis
  proof (cases "k = 0")
    case True
    then show ?thesis using k by simp
  next
    case False
    then have "(2::nat) ^ (k - 1) < 2 ^ n" using k assms by linarith
    then have "k - 1 < n" by (simp add: power_strict_increasing_iff)
    then have "k \<le> n" using False by simp
    then show ?thesis using k by simp
  qed
qed

subsection \<open>Finalize inserts the rows one after the other\<close>

lemma nat_and_le: "(a::nat) AND b \<le> b"
  by (metis AND_upper2'' linorder_not_less of_nat_0_le_iff of_nat_and_eq
    of_nat_less_iff verit_comp_simplify1(1))

lemma push_row_fields:
  "bitmask (push_row row ht) = bitmask ht"
  "pointer_offset (push_row row ht) = pointer_offset ht"
  "entry_size (push_row row ht) = entry_size ht"
  "length (hash_map (push_row row ht)) = length (hash_map ht)"
  "block_collection (push_row row ht) = block_collection ht"
  "flags (heap (push_row row ht)) = flags (heap ht)"
  "columns (heap (push_row row ht)) = columns (heap ht)"
  by (simp_all add: push_row_def Let_def)

lemma fold_push_row_fields:
  "bitmask (fold push_row rows ht) = bitmask ht \<and>
   pointer_offset (fold push_row rows ht) = pointer_offset ht \<and>
   entry_size (fold push_row rows ht) = entry_size ht \<and>
   length (hash_map (fold push_row rows ht)) = length (hash_map ht) \<and>
   block_collection (fold push_row rows ht) = block_collection ht \<and>
   flags (heap (fold push_row rows ht)) = flags (heap ht) \<and>
   columns (heap (fold push_row rows ht)) = columns (heap ht)"
  by (induction rows arbitrary: ht) (simp_all add: push_row_fields)

lemma push_row_cells_other:
  "r \<noteq> row \<Longrightarrow> cells (heap (push_row row ht)) (r + pointer_offset ht) = cells (heap ht) (r + pointer_offset ht)"
  by (simp add: push_row_def Let_def)

lemma fold_push_row_cells_other:
  "r \<notin> set rows \<Longrightarrow>
   cells (heap (fold push_row rows ht)) (r + pointer_offset ht) = cells (heap ht) (r + pointer_offset ht)"
proof (induction rows arbitrary: ht)
  case Nil
  then show ?case by simp
next
  case (Cons a rows)
  then have "cells (heap (fold push_row rows (push_row a ht))) (r + pointer_offset (push_row a ht)) =
        cells (heap (push_row a ht)) (r + pointer_offset (push_row a ht))" by simp
  then show ?case using Cons.prems by (simp add: push_row_fields push_row_cells_other)
qed

text \<open>InsertHashes of a batch of distinct rows whose hashes were just loaded is a sequence of pushes.\<close>

lemma InsertHashes_step_fields:
  "bitmask (InsertHashes_step ix ks i ht) = bitmask ht"
  "pointer_offset (InsertHashes_step ix ks i ht) = pointer_offset ht"
  by (simp_all add: InsertHashes_step_def Let_def)

lemma fold_InsertHashes_step_eq:
  assumes "distinct ks"
  shows "set js \<subseteq> {0..<length ks} \<Longrightarrow> distinct js \<Longrightarrow>
     (\<forall>j\<in>set js. ix ! j = cells (heap ht) (ks ! j + pointer_offset ht) AND bitmask ht) \<Longrightarrow>
     fold (InsertHashes_step ix ks) js ht = fold push_row (map ((!) ks) js) ht"
proof (induction js arbitrary: ht)
  case Nil
  then show ?case by simp
next
  case (Cons j js)
  have st: "InsertHashes_step ix ks j ht = push_row (ks ! j) ht"
    using Cons.prems by (simp add: InsertHashes_step_def push_row_def Let_def)
  have "\<forall>j'\<in>set js. ix ! j' = cells (heap (push_row (ks ! j) ht)) (ks ! j' + pointer_offset (push_row (ks ! j) ht))
           AND bitmask (push_row (ks ! j) ht)"
  proof
    fix j' assume j': "j' \<in> set js"
    then have "j' \<noteq> j" "j' < length ks" "j < length ks" using Cons.prems by auto
    then have "ks ! j' \<noteq> ks ! j" using assms by (simp add: nth_eq_iff_index_eq)
    then show "ix ! j' = cells (heap (push_row (ks ! j) ht)) (ks ! j' + pointer_offset (push_row (ks ! j) ht))
           AND bitmask (push_row (ks ! j) ht)"
      using Cons.prems j' by (simp add: push_row_fields push_row_cells_other)
  qed
  then have "fold (InsertHashes_step ix ks) js (push_row (ks ! j) ht) =
             fold push_row (map ((!) ks) js) (push_row (ks ! j) ht)"
    using Cons.prems by (intro Cons.IH) auto
  then show ?case using st by simp
qed

lemma InsertHashes_loaded:
  assumes "distinct ks" "length ks = n"
  shows "InsertHashes ht (map (\<lambda>k. cells (heap ht) (k + pointer_offset ht)) ks) n ks = fold push_row ks ht"
proof -
  let ?hs = "map (\<lambda>k. cells (heap ht) (k + pointer_offset ht)) ks"
  have "fold (InsertHashes_step (ApplyBitmask ht ?hs n) ks) [0..<n] ht = fold push_row (map ((!) ks) [0..<n]) ht"
    using assms by (intro fold_InsertHashes_step_eq) (auto simp: ApplyBitmask_def)
  moreover have "map ((!) ks) [0..<n] = ks" using assms(2) map_nth[of ks] by simp
  ultimately show ?thesis by (simp add: InsertHashes_def)
qed

lemma upt_split_map: "[0..<m + n] = [0..<m] @ map (\<lambda>i. m + i) [0..<n]"
proof -
  have "[0..<m + n] = [0..<m] @ [m..<m + n]" by (rule upt_add_eq_append) simp
  moreover have "map (\<lambda>i. m + i) [0..<n] = [m..<m + n]"
    using map_add_upt[of m n] by (simp add: add.commute)
  ultimately show ?thesis by simp
qed

lemma Finalize_block_pushes:
  assumes vs: "0 < STANDARD_VECTOR_SIZE ext"
  shows "distinct (map (\<lambda>i. dataptr + i * entry_size ht) [0..<count - entry]) \<Longrightarrow>
     Finalize_block ext count entry dataptr ht =
       Some (fold push_row (map (\<lambda>i. dataptr + i * entry_size ht) [0..<count - entry]) ht)"
proof (induction "count - entry" arbitrary: entry dataptr ht rule: less_induct)
  case less
  show ?case
  proof (cases "entry < count")
    case False
    then show ?thesis by (subst Finalize_block.simps) simp
  next
    case True
    define n where "n = min (STANDARD_VECTOR_SIZE ext) (count - entry)"
    define es where "es = entry_size ht"
    define ks where "ks = map (\<lambda>i. dataptr + i * es) [0..<n]"
    define ht' where "ht' = fold push_row ks ht"
    have n_pos: "0 < n" and n_le: "n \<le> count - entry" using True vs by (auto simp: n_def)
    have sum: "n + (count - (entry + n)) = count - entry" using n_le by simp
    have split: "[0..<count - entry] = [0..<n] @ map (\<lambda>i. n + i) [0..<count - (entry + n)]"
      using upt_split_map[of n "count - (entry + n)"] unfolding sum .
    have all: "map (\<lambda>i. dataptr + i * es) [0..<count - entry] =
               ks @ map (\<lambda>i. (dataptr + n * es) + i * es) [0..<count - (entry + n)]"
      unfolding split ks_def by (simp add: o_def algebra_simps)
    have d: "distinct (map (\<lambda>i. dataptr + i * es) [0..<count - entry])"
      using less.prems by (simp add: es_def)
    have dks: "distinct ks" and drest: "distinct (map (\<lambda>i. (dataptr + n * es) + i * es) [0..<count - (entry + n)])"
      using d unfolding all by auto
    have es': "entry_size ht' = es" by (simp add: ht'_def es_def fold_push_row_fields)
    have hd: "map (\<lambda>i. cells (heap ht) (dataptr + i * es + pointer_offset ht)) [0..<n] =
              map (\<lambda>k. cells (heap ht) (k + pointer_offset ht)) ks"
      by (simp add: ks_def o_def)
    have ins: "InsertHashes ht (map (\<lambda>i. cells (heap ht) (dataptr + i * es + pointer_offset ht)) [0..<n]) n ks = ht'"
      unfolding hd ht'_def by (rule InsertHashes_loaded[OF dks]) (simp add: ks_def)
    have step: "Finalize_block ext count entry dataptr ht =
                Finalize_block ext count (entry + n) (dataptr + n * es) ht'"
      using True ins by (subst Finalize_block.simps) (simp add: Let_def n_def[symmetric] es_def[symmetric] ks_def[symmetric])
    have "Finalize_block ext count (entry + n) (dataptr + n * es) ht' =
          Some (fold push_row (map (\<lambda>i. (dataptr + n * es) + i * entry_size ht') [0..<count - (entry + n)]) ht')"
      using n_pos True drest by (intro less.hyps) (auto simp: es')
    then have "Finalize_block ext count (entry + n) (dataptr + n * es) ht' =
          Some (fold push_row (map (\<lambda>i. (dataptr + n * es) + i * es) [0..<count - (entry + n)]) ht')"
      by (simp only: es')
    then have "Finalize_block ext count entry dataptr ht =
          Some (fold push_row (map (\<lambda>i. dataptr + i * es) [0..<count - entry]) ht)"
      unfolding step all ht'_def by simp
    then show ?thesis by (simp only: es_def)
  qed
qed

lemma Finalize_blocks_pushes:
  assumes vs: "0 < STANDARD_VECTOR_SIZE ext"
  shows "distinct (concat (map (block_rows (entry_size ht)) bs)) \<Longrightarrow>
     Finalize_blocks ext bs ht = Some (fold push_row (concat (map (block_rows (entry_size ht)) bs)) ht)"
proof (induction bs arbitrary: ht)
  case Nil
  then show ?case by simp
next
  case (Cons b bs)
  let ?ht' = "fold push_row (block_rows (entry_size ht) b) ht"
  have d1: "distinct (block_rows (entry_size ht) b)"
    and d2: "distinct (concat (map (block_rows (entry_size ht)) bs))"
    using Cons.prems by auto
  have b: "Finalize_block ext (block_count b) 0 (block_ptr b) ht = Some ?ht'"
    using Finalize_block_pushes[OF vs, of "block_ptr b" ht "block_count b" 0] d1
    by (simp add: block_rows_def)
  have es: "entry_size ?ht' = entry_size ht" by (simp add: fold_push_row_fields)
  have "Finalize_blocks ext bs ?ht' = Some (fold push_row (concat (map (block_rows (entry_size ?ht')) bs)) ?ht')"
    using d2 by (intro Cons.IH) (simp add: es)
  then show ?case using b by (simp add: es)
qed

lemma Finalize_allocate_fields:
  "entry_size (Finalize_allocate ext ht) = entry_size ht"
  "block_collection (Finalize_allocate ext ht) = block_collection ht"
  "pointer_offset (Finalize_allocate ext ht) = pointer_offset ht"
  "heap (Finalize_allocate ext ht) = heap ht"
  "bitmask (Finalize_allocate ext ht) = Finalize_capacity ext ht - 1"
  "hash_map (Finalize_allocate ext ht) = replicate (Finalize_capacity ext ht) 0"
  by (simp_all add: Finalize_allocate_def Let_def)

lemma Finalize_pushes:
  assumes "0 < STANDARD_VECTOR_SIZE ext" "distinct (table_rows ht)"
  shows "Finalize ext ht =
     Some ((fold push_row (table_rows ht) (Finalize_allocate ext ht))\<lparr> finalized := True \<rparr>)"
proof -
  have "Finalize_blocks ext (blocks (block_collection ht)) (Finalize_allocate ext ht) =
        Some (fold push_row (table_rows ht) (Finalize_allocate ext ht))"
    using Finalize_blocks_pushes[OF assms(1), of "Finalize_allocate ext ht" "blocks (block_collection ht)"]
      assms(2)
    by (simp add: table_rows_def Finalize_allocate_fields)
  then show ?thesis by (simp add: Finalize_def)
qed

subsection \<open>The chains after Finalize\<close>

lemma is_chain_frame:
  "is_chain c off p ks \<Longrightarrow> k \<notin> set ks \<Longrightarrow> is_chain (c(k + off := v)) off p ks"
  by (induction ks arbitrary: p) auto

lemma is_chain_walk:
  "is_chain c off p ks \<Longrightarrow> length ks \<le> n \<Longrightarrow> chain_walk n c off p = Some ks"
proof (induction n arbitrary: p ks)
  case 0
  then show ?case by simp
next
  case (Suc n)
  show ?case
  proof (cases ks)
    case Nil
    then show ?thesis using Suc.prems by simp
  next
    case (Cons k ks')
    then have "chain_walk n c off (c (k + off)) = Some ks'"
      using Suc.prems by (intro Suc.IH) auto
    then show ?thesis using Cons Suc.prems by simp
  qed
qed

lemma push_row_invariant:
  assumes ch: "chains_of ht c0 P"
    and fr: "\<forall>r. r \<notin> set P \<longrightarrow> cells (heap ht) (r + pointer_offset ht) = c0 (r + pointer_offset ht)"
    and bm: "bitmask ht < length (hash_map ht)"
    and new: "k \<notin> set P" "k \<noteq> 0"
  shows "chains_of (push_row k ht) c0 (P @ [k])"
proof -
  let ?off = "pointer_offset ht"
  let ?s = "c0 (k + ?off) AND bitmask ht"
  let ?c = "cells (heap ht)"
  let ?c' = "?c(k + ?off := hash_map ht ! ?s)"
  have cur: "?c (k + ?off) = c0 (k + ?off)" using fr new by simp
  have s_lt: "?s < length (hash_map ht)" using nat_and_le[of "c0 (k + ?off)" "bitmask ht"] bm by simp
  have hm: "hash_map (push_row k ht) = (hash_map ht)[?s := k]"
    and cl: "cells (heap (push_row k ht)) = ?c'"
    by (simp_all add: push_row_def Let_def cur)
  show ?thesis
    unfolding chains_of_def push_row_fields hm cl
  proof (intro allI impI)
    fix s assume s: "s < length ((hash_map ht)[?s := k])"
    then have s': "s < length (hash_map ht)" by simp
    let ?old = "rev (filter (\<lambda>row. c0 (row + ?off) AND bitmask ht = s) P)"
    have old: "is_chain ?c ?off (hash_map ht ! s) ?old"
      using ch s' by (simp add: chains_of_def)
    have "k \<notin> set ?old" using new by simp
    then have old': "is_chain ?c' ?off (hash_map ht ! s) ?old"
      using old by (rule is_chain_frame[rotated])
    show "is_chain ?c' ?off ((hash_map ht)[?s := k] ! s)
            (rev (filter (\<lambda>row. c0 (row + ?off) AND bitmask ht = s) (P @ [k])))"
    proof (cases "s = ?s")
      case True
      then show ?thesis using old' s_lt new by simp
    next
      case False
      then show ?thesis using old' s' by auto
    qed
  qed
qed

lemma push_row_frame:
  assumes "\<forall>r. r \<notin> set P \<longrightarrow> cells (heap ht) (r + pointer_offset ht) = c0 (r + pointer_offset ht)"
  shows "\<forall>r. r \<notin> set (P @ [k]) \<longrightarrow>
           cells (heap (push_row k ht)) (r + pointer_offset (push_row k ht)) = c0 (r + pointer_offset (push_row k ht))"
  using assms by (simp add: push_row_fields push_row_cells_other)

lemma fold_push_row_invariant:
  "chains_of ht c0 P \<Longrightarrow>
   \<forall>r. r \<notin> set P \<longrightarrow> cells (heap ht) (r + pointer_offset ht) = c0 (r + pointer_offset ht) \<Longrightarrow>
   bitmask ht < length (hash_map ht) \<Longrightarrow> distinct (P @ ks) \<Longrightarrow> 0 \<notin> set ks \<Longrightarrow>
   chains_of (fold push_row ks ht) c0 (P @ ks)"
proof (induction ks arbitrary: ht P)
  case Nil
  then show ?case by simp
next
  case (Cons k ks)
  have new: "k \<notin> set P" "k \<noteq> 0" using Cons.prems by auto
  have 1: "chains_of (push_row k ht) c0 (P @ [k])"
    using push_row_invariant[OF Cons.prems(1,2,3) new] .
  have 2: "\<forall>r. r \<notin> set (P @ [k]) \<longrightarrow>
           cells (heap (push_row k ht)) (r + pointer_offset (push_row k ht)) = c0 (r + pointer_offset (push_row k ht))"
    using push_row_frame[OF Cons.prems(2)] .
  have 3: "bitmask (push_row k ht) < length (hash_map (push_row k ht))"
    using Cons.prems(3) by (simp add: push_row_fields)
  have 4: "distinct ((P @ [k]) @ ks)" "0 \<notin> set ks" using Cons.prems by auto
  have "chains_of (fold push_row ks (push_row k ht)) c0 ((P @ [k]) @ ks)"
    using Cons.IH[OF 1 2 3 4] .
  then show ?case by simp
qed

lemma Finalize_capacity_no_wrap:
  assumes "Count ht \<le> 2 ^ 62" "BLOCK_SIZE ext div sizeof_data_ptr_t ext < 2 ^ 63"
  shows "Finalize_capacity ext ht =
           NextPowerOfTwo (max (2 * Count ht) (BLOCK_SIZE ext div sizeof_data_ptr_t ext + 1))"
    and "0 < Finalize_capacity ext ht"
proof -
  let ?v = "max (2 * Count ht) (BLOCK_SIZE ext div sizeof_data_ptr_t ext + 1)"
  have c2: "(Count ht * 2) mod 2 ^ 64 = 2 * Count ht"
    using assms(1) by simp
  have "?v \<le> 2 ^ 63" using assms by simp
  then have "NextPowerOfTwo ?v \<le> 2 ^ 63" by (rule NextPowerOfTwo_bound)
  then have lt: "NextPowerOfTwo ?v < 2 ^ 64" by simp
  show eq: "Finalize_capacity ext ht = NextPowerOfTwo ?v"
    unfolding Finalize_capacity_def c2 using lt by simp
  obtain k where "NextPowerOfTwo ?v = 2 ^ k" using NextPowerOfTwo_spec[of ?v] by blast
  then show "0 < Finalize_capacity ext ht" unfolding eq by simp
qed

lemma InsertHashes_step_keeps:
  "length (hash_map (InsertHashes_step ix ks i ht)) = length (hash_map ht) \<and>
   bitmask (InsertHashes_step ix ks i ht) = bitmask ht"
  by (simp add: InsertHashes_step_def Let_def)

lemma fold_InsertHashes_step_keeps:
  "length (hash_map (fold (InsertHashes_step ix ks) js ht)) = length (hash_map ht) \<and>
   bitmask (fold (InsertHashes_step ix ks) js ht) = bitmask ht"
  by (induction js arbitrary: ht) (simp_all add: InsertHashes_step_keeps)

lemma InsertHashes_keeps:
  "length (hash_map (InsertHashes ht hs n ks)) = length (hash_map ht) \<and>
   bitmask (InsertHashes ht hs n ks) = bitmask ht"
  by (simp add: InsertHashes_def Let_def fold_InsertHashes_step_keeps)

lemma Finalize_block_keeps:
  assumes "Finalize_block ext count entry dataptr ht = Some ht'"
  shows "length (hash_map ht') = length (hash_map ht) \<and> bitmask ht' = bitmask ht"
  using assms
proof (rule Finalize_block.raw_induct[where P = "\<lambda>ext count entry dataptr ht ht'. length (hash_map ht') = length (hash_map ht) \<and> bitmask ht' = bitmask ht", rotated])
  fix f ext count entry dataptr ht exta
  assume ih: "\<And>count entry dataptr ht b y. f count entry dataptr ht b = Some y \<Longrightarrow>
                length (hash_map y) = length (hash_map b) \<and> bitmask y = bitmask b"
    and body: "(if entry < count
      then let next = min (STANDARD_VECTOR_SIZE ext) (count - entry);
               hash_data = map (\<lambda>i. cells (heap ht) (dataptr + i * entry_size ht + pointer_offset ht)) [0..<next];
               key_locations = map (\<lambda>i. dataptr + i * entry_size ht) [0..<next]
           in f ext count (entry + next) (dataptr + next * entry_size ht)
               (InsertHashes ht hash_data next key_locations)
      else Some ht) = Some exta"
  show "length (hash_map exta) = length (hash_map ht) \<and> bitmask exta = bitmask ht"
  proof (cases "entry < count")
    case True
    then show ?thesis using body ih[of ext count] by (simp add: Let_def) (metis InsertHashes_keeps ih)
  next
    case False
    then show ?thesis using body by simp
  qed
qed

lemma Finalize_blocks_keeps:
  "Finalize_blocks ext bs ht = Some ht' \<Longrightarrow>
   length (hash_map ht') = length (hash_map ht) \<and> bitmask ht' = bitmask ht"
proof (induction bs arbitrary: ht)
  case Nil
  then show ?case by simp
next
  case (Cons b bs)
  then obtain h1 where h1: "Finalize_block ext (block_count b) 0 (block_ptr b) ht = Some h1"
    and r: "Finalize_blocks ext bs h1 = Some ht'"
    by (auto split: option.splits)
  show ?case using Finalize_block_keeps[OF h1] Cons.IH[OF r] by simp
qed

lemma Finalize_keeps:
  "Finalize ext ht = Some ht' \<Longrightarrow>
   length (hash_map ht') = Finalize_capacity ext ht \<and> bitmask ht' = Finalize_capacity ext ht - 1 \<and>
   finalized ht'"
  by (auto simp: Finalize_def Finalize_allocate_fields split: option.splits dest!: Finalize_blocks_keeps)

lemma InsertHashes_single:
  "InsertHashes ht [h] 1 [row] =
     ht\<lparr> heap := (heap ht)\<lparr> cells := (cells (heap ht))
                     (row + pointer_offset ht := hash_map ht ! (h AND bitmask ht)) \<rparr>,
          hash_map := (hash_map ht)[h AND bitmask ht := row] \<rparr>"
  by (simp add: InsertHashes_def ApplyBitmask_def InsertHashes_step_def Let_def)

lemma Finalize_chains:
  assumes vs: "0 < STANDARD_VECTOR_SIZE ext"
    and d: "distinct (table_rows ht)" and nz: "0 \<notin> set (table_rows ht)"
    and cap: "0 < Finalize_capacity ext ht"
  shows "\<exists>ht'. Finalize ext ht = Some ht' \<and> chains_of ht' (cells (heap ht)) (table_rows ht) \<and>
           pointer_offset ht' = pointer_offset ht"
proof -
  let ?a = "Finalize_allocate ext ht"
  let ?f = "fold push_row (table_rows ht) ?a"
  have fin: "Finalize ext ht = Some (?f\<lparr> finalized := True \<rparr>)"
    using Finalize_pushes[OF vs d] .
  have 1: "chains_of ?a (cells (heap ht)) []"
    by (simp add: chains_of_def Finalize_allocate_fields)
  have 2: "\<forall>r. r \<notin> set [] \<longrightarrow> cells (heap ?a) (r + pointer_offset ?a) = cells (heap ht) (r + pointer_offset ?a)"
    by (simp add: Finalize_allocate_fields)
  have 3: "bitmask ?a < length (hash_map ?a)" using cap by (simp add: Finalize_allocate_fields)
  have "chains_of ?f (cells (heap ht)) ([] @ table_rows ht)"
    using fold_push_row_invariant[OF 1 2 3] d nz by simp
  then have "chains_of (?f\<lparr> finalized := True \<rparr>) (cells (heap ht)) (table_rows ht)"
    by (simp add: chains_of_def)
  moreover have "pointer_offset (?f\<lparr> finalized := True \<rparr>) = pointer_offset ht"
    by (simp add: fold_push_row_fields Finalize_allocate_fields)
  ultimately show ?thesis using fin by blast
qed

text \<open>
  C4. \<open>InsertHashes\<close> of a row with hash \<open>h\<close> takes the slot \<open>h AND bitmask\<close>, stores the
  slot's previous head into the row's cell at \<open>pointer_offset\<close> and makes the row the head
  of the slot. \<open>Finalize\<close> on non-overlapping rows (distinct, non-null addresses) returns, and
  afterwards the walk from the head of any slot visits exactly the rows whose hash falls
  into that slot, in the reverse of the order in which \<open>Finalize\<close> inserted them.
\<close>

theorem Finalize_chains_LIFO:
  assumes "0 < STANDARD_VECTOR_SIZE ext"
    and "distinct (table_rows ht)" and "0 \<notin> set (table_rows ht)"
    and "Count ht \<le> 2 ^ 62" and "BLOCK_SIZE ext div sizeof_data_ptr_t ext < 2 ^ 63"
  shows "(\<exists>ht'. Finalize ext ht = Some ht' \<and> finalized ht' \<and>
            length (hash_map ht') = Finalize_capacity ext ht \<and>
            bitmask ht' = Finalize_capacity ext ht - 1 \<and>
            (\<forall>s<length (hash_map ht').
               chain_walk (length (table_rows ht)) (cells (heap ht')) (pointer_offset ht)
                 (hash_map ht' ! s) =
               Some (rev (filter (\<lambda>row. cells (heap ht) (row + pointer_offset ht) AND bitmask ht' = s)
                            (table_rows ht))))) \<and>
         InsertHashes t [h] 1 [row] =
           t\<lparr> heap := (heap t)\<lparr> cells := (cells (heap t))
                         (row + pointer_offset t := hash_map t ! (h AND bitmask t)) \<rparr>,
              hash_map := (hash_map t)[h AND bitmask t := row] \<rparr>"
proof -
  have cap: "0 < Finalize_capacity ext ht" using Finalize_capacity_no_wrap(2)[OF assms(4,5)] .
  obtain ht' where f: "Finalize ext ht = Some ht'"
    and ch: "chains_of ht' (cells (heap ht)) (table_rows ht)"
    and off: "pointer_offset ht' = pointer_offset ht"
    using Finalize_chains[OF assms(1,2,3) cap] by blast
  have k: "length (hash_map ht') = Finalize_capacity ext ht"
    "bitmask ht' = Finalize_capacity ext ht - 1" "finalized ht'"
    using Finalize_keeps[OF f] by simp_all
  have "\<forall>s<length (hash_map ht').
          chain_walk (length (table_rows ht)) (cells (heap ht')) (pointer_offset ht) (hash_map ht' ! s) =
          Some (rev (filter (\<lambda>row. cells (heap ht) (row + pointer_offset ht) AND bitmask ht' = s)
                       (table_rows ht)))"
  proof (intro allI impI)
    fix s assume "s < length (hash_map ht')"
    then have "is_chain (cells (heap ht')) (pointer_offset ht) (hash_map ht' ! s)
          (rev (filter (\<lambda>row. cells (heap ht) (row + pointer_offset ht) AND bitmask ht' = s) (table_rows ht)))"
      using ch off by (simp add: chains_of_def)
    then show "chain_walk (length (table_rows ht)) (cells (heap ht')) (pointer_offset ht) (hash_map ht' ! s) =
          Some (rev (filter (\<lambda>row. cells (heap ht) (row + pointer_offset ht) AND bitmask ht' = s)
                       (table_rows ht)))"
      by (rule is_chain_walk) simp
  qed
  then show ?thesis using f k InsertHashes_single[of t h row] by blast
qed

lemmas ex_table_simps = ex_ht_rows_def ex_ht_eq_def ex_ext_def ex_mem_def JoinHashTable_new_def
  InitializeHistogram_def

lemma ex_capacity: "Finalize_capacity ex_ext ex_ht_rows = 16"
  by (simp add: Finalize_capacity_def NextPowerOfTwo_def next_pow2_from.simps Count_def ex_table_simps)

lemma ex_table_rows: "table_rows ex_ht_rows = [1000, 1016, 1032]"
  by (simp add: table_rows_def block_rows_def ex_table_simps upt_rec)

theorem Finalize_chains_LIFO_witness:
  "\<exists>ht'. Finalize ex_ext ex_ht_rows = Some ht' \<and>
      chain_walk 3 (cells (heap ht')) 8 (hash_map ht' ! 5) = Some [1016, 1000] \<and>
      chain_walk 3 (cells (heap ht')) 8 (hash_map ht' ! 2) = Some [1032] \<and>
      chain_walk 3 (cells (heap ht')) 8 (hash_map ht' ! 0) = Some []"
proof -
  have h: "0 < STANDARD_VECTOR_SIZE ex_ext" "distinct (table_rows ex_ht_rows)"
    "0 \<notin> set (table_rows ex_ht_rows)" "Count ex_ht_rows \<le> 2 ^ 62"
    "BLOCK_SIZE ex_ext div sizeof_data_ptr_t ex_ext < 2 ^ 63"
    by (simp_all add: ex_table_rows) (simp_all add: ex_table_simps Count_def)
  have po: "pointer_offset ex_ht_rows = 8" by (simp add: ex_table_simps)
  have c: "cells (heap ex_ht_rows) = (\<lambda>a. 0)(1008 := 5, 1024 := 21, 1040 := 2)"
    by (simp add: ex_table_simps)
  from Finalize_chains_LIFO[OF h, where t = ex_ht_rows and h = 5 and row = 1000]
  obtain ht' where f: "Finalize ex_ext ex_ht_rows = Some ht'"
    and l: "length (hash_map ht') = 16" and b: "bitmask ht' = 15"
    and w: "\<forall>s<length (hash_map ht').
               chain_walk (length (table_rows ex_ht_rows)) (cells (heap ht')) (pointer_offset ex_ht_rows)
                 (hash_map ht' ! s) =
               Some (rev (filter (\<lambda>row. cells (heap ex_ht_rows) (row + pointer_offset ex_ht_rows) AND bitmask ht' = s)
                            (table_rows ex_ht_rows)))"
    unfolding ex_capacity by auto
  have a5: "(5::nat) AND 15 = 5" "(21::nat) AND 15 = 5" "(2::nat) AND 15 = 2" by simp_all
  have len: "length (table_rows ex_ht_rows) = 3" by (simp add: ex_table_rows)
  have r5: "rev (filter (\<lambda>row. cells (heap ex_ht_rows) (row + 8) AND bitmask ht' = 5)
                  (table_rows ex_ht_rows)) = [1016, 1000]"
    and r2: "rev (filter (\<lambda>row. cells (heap ex_ht_rows) (row + 8) AND bitmask ht' = 2)
                  (table_rows ex_ht_rows)) = [1032]"
    and r0: "rev (filter (\<lambda>row. cells (heap ex_ht_rows) (row + 8) AND bitmask ht' = 0)
                  (table_rows ex_ht_rows)) = []"
    by (simp_all add: ex_table_rows c b a5)
  have lt: "5 < length (hash_map ht')" "2 < length (hash_map ht')" "0 < length (hash_map ht')"
    using l by simp_all
  have "chain_walk 3 (cells (heap ht')) 8 (hash_map ht' ! 5) = Some [1016, 1000]"
    using w[rule_format, OF lt(1)] unfolding r5 len po .
  moreover have "chain_walk 3 (cells (heap ht')) 8 (hash_map ht' ! 2) = Some [1032]"
    using w[rule_format, OF lt(2)] unfolding r2 len po .
  moreover have "chain_walk 3 (cells (heap ht')) 8 (hash_map ht' ! 0) = Some []"
    using w[rule_format, OF lt(3)] unfolding r0 len po .
  ultimately show ?thesis using f by blast
qed







subsection \<open>The scan of the unmatched build rows\<close>

lemma rows_between_Cons:
  "pos < count \<Longrightarrow> rows_between base es pos count = (base + pos * es) # rows_between base es (Suc pos) count"
  by (simp add: rows_between_def upt_conv_Cons)

lemma rows_between_Nil: "\<not> pos < count \<Longrightarrow> rows_between base es pos count = []"
  by (simp add: rows_between_def)

lemma ScanFullOuter_block_spec:
  assumes vs: "length found < STANDARD_VECTOR_SIZE ext"
  shows "case ScanFullOuter_block ext ht base count pos found of (pos', found') \<Rightarrow>
     found' = found @ take (STANDARD_VECTOR_SIZE ext - length found)
                        (filter (not_found ht) (rows_between base (entry_size ht) pos count)) \<and>
     (if length found' = STANDARD_VECTOR_SIZE ext
      then filter (not_found ht) (rows_between base (entry_size ht) pos' count) =
           drop (STANDARD_VECTOR_SIZE ext - length found)
             (filter (not_found ht) (rows_between base (entry_size ht) pos count))
      else length found + length (filter (not_found ht) (rows_between base (entry_size ht) pos count))
             < STANDARD_VECTOR_SIZE ext)"
  using vs
proof (induction "count - pos" arbitrary: pos found)
  case 0
  then show ?case by (subst ScanFullOuter_block.simps) (simp add: rows_between_Nil)
next
  case (Suc n)
  then have lt: "pos < count" by simp
  let ?row = "base + pos * entry_size ht"
  note up = rows_between_Cons[OF lt, of base "entry_size ht"]
  let ?R = "rows_between base (entry_size ht) (Suc pos) count"
  let ?V = "STANDARD_VECTOR_SIZE ext"
  show ?case
  proof (cases "not_found ht ?row")
    case False
    have step: "ScanFullOuter_block ext ht base count pos found =
                ScanFullOuter_block ext ht base count (Suc pos) found"
      using lt False by (subst ScanFullOuter_block.simps) (simp add: not_found_def)
    have ih: "case ScanFullOuter_block ext ht base count (Suc pos) found of (pos', found') \<Rightarrow>
       found' = found @ take (?V - length found) (filter (not_found ht) ?R) \<and>
       (if length found' = ?V
        then filter (not_found ht) (rows_between base (entry_size ht) pos' count) =
             drop (?V - length found) (filter (not_found ht) ?R)
        else length found + length (filter (not_found ht) ?R) < ?V)"
      using Suc.hyps(2) Suc.prems by (intro Suc.hyps(1)) auto
    show ?thesis unfolding step up using ih False by (auto split: prod.splits)
  next
    case True
    show ?thesis
    proof (cases "Suc (length found) = ?V")
      case full: True
      have step: "ScanFullOuter_block ext ht base count pos found = (Suc pos, found @ [?row])"
        using lt True full by (subst ScanFullOuter_block.simps) (simp add: not_found_def Let_def)
      have v: "?V - length found = Suc 0" using full by simp
      show ?thesis unfolding step up using True full v by simp
    next
      case nf: False
      have step: "ScanFullOuter_block ext ht base count pos found =
                  ScanFullOuter_block ext ht base count (Suc pos) (found @ [?row])"
        using lt True nf by (subst ScanFullOuter_block.simps) (simp add: not_found_def Let_def)
      have l': "length (found @ [?row]) < ?V" using nf Suc.prems by simp
      have ih: "case ScanFullOuter_block ext ht base count (Suc pos) (found @ [?row]) of (pos', found') \<Rightarrow>
         found' = (found @ [?row]) @ take (?V - length (found @ [?row])) (filter (not_found ht) ?R) \<and>
         (if length found' = ?V
          then filter (not_found ht) (rows_between base (entry_size ht) pos' count) =
               drop (?V - length (found @ [?row])) (filter (not_found ht) ?R)
          else length (found @ [?row]) + length (filter (not_found ht) ?R) < ?V)"
        using Suc.hyps(2) l' by (intro Suc.hyps(1)) auto
      have v: "?V - length found = Suc (?V - Suc (length found))" using Suc.prems by simp
      show ?thesis unfolding step up using ih True v by (auto split: prod.splits)
    qed
  qed
qed

lemma drop_rows_between: "drop p (rows_between base es 0 count) = rows_between base es p count"
  by (simp add: rows_between_def drop_map)

lemma block_rows_between: "block_rows es b = rows_between (block_ptr b) es 0 (block_count b)"
  by (simp add: block_rows_def rows_between_def)

lemma concat_map_drop:
  "n < length xs \<Longrightarrow> concat (map f (drop n xs)) = f (xs ! n) @ concat (map f (drop (Suc n) xs))"
  by (simp add: Cons_nth_drop_Suc[symmetric])

lemma remaining_rows_next:
  "block_position state < length (blocks (block_collection ht)) \<Longrightarrow>
   remaining_rows ht (state\<lparr> block_position := Suc (block_position state), position := 0 \<rparr>) =
   concat (map (block_rows (entry_size ht)) (drop (Suc (block_position state)) (blocks (block_collection ht))))"
  by (simp add: remaining_rows_def concat_map_drop)

lemma remaining_rows_here:
  "block_position state < length (blocks (block_collection ht)) \<Longrightarrow>
   remaining_rows ht (state\<lparr> position := p \<rparr>) =
   rows_between (block_ptr (blocks (block_collection ht) ! block_position state)) (entry_size ht) p
     (block_count (blocks (block_collection ht) ! block_position state)) @
   concat (map (block_rows (entry_size ht)) (drop (Suc (block_position state)) (blocks (block_collection ht))))"
  by (simp add: remaining_rows_def block_rows_between drop_rows_between)

lemma take_drop_full:
  assumes "length (found @ take m F) = V" "length found < V" "m = V - length found"
  shows "take m (F @ G) = take m F" "drop m (F @ G) = drop m F @ G"
proof -
  have "m \<le> length F" using assms by (cases "m \<le> length F") auto
  then show "take m (F @ G) = take m F" "drop m (F @ G) = drop m F @ G" by simp_all
qed

lemma ScanFullOuter_blocks_spec:
  "length found < STANDARD_VECTOR_SIZE ext \<Longrightarrow>
   (case ScanFullOuter_blocks ext ht state found of (state', found') \<Rightarrow>
     found' = found @ take (STANDARD_VECTOR_SIZE ext - length found)
                        (filter (not_found ht) (remaining_rows ht state)) \<and>
     filter (not_found ht) (remaining_rows ht state') =
       drop (STANDARD_VECTOR_SIZE ext - length found) (filter (not_found ht) (remaining_rows ht state)))"
proof (induction "length (blocks (block_collection ht)) - block_position state" arbitrary: state found)
  case 0
  then have "\<not> block_position state < length (blocks (block_collection ht))" by simp
  then show ?case by (subst ScanFullOuter_blocks.simps) (simp add: remaining_rows_def)
next
  case (Suc n)
  let ?V = "STANDARD_VECTOR_SIZE ext"
  let ?bs = "blocks (block_collection ht)"
  let ?b = "?bs ! block_position state"
  have lt: "block_position state < length ?bs" using Suc.hyps(2) by simp
  let ?L = "concat (map (block_rows (entry_size ht)) (drop (Suc (block_position state)) ?bs))"
  let ?F = "filter (not_found ht) (rows_between (block_ptr ?b) (entry_size ht) (position state) (block_count ?b))"
  have rem: "remaining_rows ht state = rows_between (block_ptr ?b) (entry_size ht) (position state) (block_count ?b) @ ?L"
    using remaining_rows_here[OF lt, of "position state"] by simp
  obtain pos f' where inner: "ScanFullOuter_block ext ht (block_ptr ?b) (block_count ?b) (position state) found = (pos, f')"
    by (cases "ScanFullOuter_block ext ht (block_ptr ?b) (block_count ?b) (position state) found")
  from ScanFullOuter_block_spec[OF Suc.prems, where ht=ht and base="block_ptr ?b" and count="block_count ?b" and pos="position state"] inner
  have f': "f' = found @ take (?V - length found) ?F"
    and full: "length f' = ?V \<Longrightarrow>
        filter (not_found ht) (rows_between (block_ptr ?b) (entry_size ht) pos (block_count ?b)) =
        drop (?V - length found) ?F"
    and notfull: "length f' \<noteq> ?V \<Longrightarrow> length found + length ?F < ?V"
    by (auto split: if_splits)
  show ?case
  proof (cases "length f' = ?V")
    case True
    have res: "ScanFullOuter_blocks ext ht state found = (state\<lparr> position := pos \<rparr>, f')"
      using lt inner True by (subst ScanFullOuter_blocks.simps) (simp add: Let_def)
    have td: "take (?V - length found) (?F @ filter (not_found ht) ?L) = take (?V - length found) ?F"
      "drop (?V - length found) (?F @ filter (not_found ht) ?L) = drop (?V - length found) ?F @ filter (not_found ht) ?L"
      using take_drop_full[of found "?V - length found" ?F ?V] True f' Suc.prems by auto
    show ?thesis
      unfolding res using f' full[OF True] td
      by (simp add: rem remaining_rows_here[OF lt])
  next
    case False
    let ?st2 = "state\<lparr> block_position := Suc (block_position state), position := 0 \<rparr>"
    have res: "ScanFullOuter_blocks ext ht state found = ScanFullOuter_blocks ext ht ?st2 f'"
      using lt inner False by (subst ScanFullOuter_blocks.simps) (simp add: Let_def)
    have small: "length found + length ?F < ?V" using notfull[OF False] .
    then have f'2: "f' = found @ ?F" using f' by simp
    have l2: "length f' < ?V" using small f'2 by simp
    have ih: "case ScanFullOuter_blocks ext ht ?st2 f' of (state', found') \<Rightarrow>
       found' = f' @ take (?V - length f') (filter (not_found ht) (remaining_rows ht ?st2)) \<and>
       filter (not_found ht) (remaining_rows ht state') =
         drop (?V - length f') (filter (not_found ht) (remaining_rows ht ?st2))"
      using Suc.hyps(2) l2 by (intro Suc.hyps(1)) auto
    have d: "?V - length found - length ?F = ?V - length f'" using f'2 by simp
    show ?thesis
      unfolding res using ih small
      by (auto simp: rem remaining_rows_next[OF lt] f'2 d split: prod.splits)
  qed
qed

lemma fold_update_const_length:
  "length (fold (\<lambda>i data. data[i := c]) [0..<n] d) = length d"
  by (induction n) auto

lemma fold_update_const:
  "j < length d \<Longrightarrow> (fold (\<lambda>i data. data[i := c]) [0..<n] d) ! j = (if j < n then c else d ! j)"
  by (induction n) (auto simp: nth_list_update fold_update_const_length less_Suc_eq)

lemma fold_update_shift_length:
  "length (fold (\<lambda>i data. data[l + i := g i]) [0..<m] d) = length d"
  by (induction m) auto

lemma fold_update_shift:
  "j < length d \<Longrightarrow> (fold (\<lambda>i data. data[l + i := g i]) [0..<m] d) ! j =
     (if l \<le> j \<and> j < l + m then g (j - l) else d ! j)"
  by (induction m) (auto simp: nth_list_update fold_update_shift_length less_Suc_eq)

lemma GetValue_ConstantNull: "r < STANDARD_VECTOR_SIZE ext \<Longrightarrow> GetValue (ConstantNull ext) r = None"
  by (simp add: GetValue_def ConstantNull_def RowIsValid_def)

lemma GetValue_Gather:
  "r < length addresses \<Longrightarrow> GetValue (Gather mem addresses off) r = columns mem (addresses ! r + off)"
  by (auto simp: GetValue_def Gather_def RowIsValid_def split: option.splits)

lemma ScanFullOuter_spec:
  assumes vs: "0 < STANDARD_VECTOR_SIZE ext" and cols: "build_count ht \<le> ColumnCount result"
  shows "case ScanFullOuter ext ht result state of (chunk, state', addresses) \<Rightarrow>
     addresses = take (STANDARD_VECTOR_SIZE ext) (filter (not_found ht) (remaining_rows ht state)) \<and>
     filter (not_found ht) (remaining_rows ht state') =
       drop (STANDARD_VECTOR_SIZE ext) (filter (not_found ht) (remaining_rows ht state)) \<and>
     emitted_chunk ht (ColumnCount result - build_count ht) chunk addresses"
proof -
  let ?V = "STANDARD_VECTOR_SIZE ext"
  obtain st' ks where b: "ScanFullOuter_blocks ext ht state [] = (st', ks)"
    by (cases "ScanFullOuter_blocks ext ht state []")
  from ScanFullOuter_blocks_spec[of "[]" ext ht state] vs b
  have ks: "ks = take ?V (filter (not_found ht) (remaining_rows ht state))"
    and rest: "filter (not_found ht) (remaining_rows ht st') = drop ?V (filter (not_found ht) (remaining_rows ht state))"
    by auto
  have len: "length ks \<le> ?V" using ks by simp
  let ?l = "ColumnCount result - build_count ht"
  let ?d1 = "fold (\<lambda>i data. data[i := ConstantNull ext]) [0..<?l] (chunk_data result)"
  let ?d2 = "fold (\<lambda>i data. data[?l + i := Gather (heap ht) ks (offsets ht ! (condition_count ht + i))])
               [0..<build_count ht] ?d1"
  have em: "emitted_chunk ht ?l (result\<lparr> chunk_size := length ks, chunk_data := ?d2 \<rparr>) ks"
    unfolding emitted_chunk_def
  proof (intro conjI allI impI)
    show "chunk_size (result\<lparr> chunk_size := length ks, chunk_data := ?d2 \<rparr>) = length ks" by simp
  next
    fix r i assume r: "r < length ks" and i: "i < ?l"
    have il: "i < length (chunk_data result)" using i by (simp add: ColumnCount_def)
    then have "?d2 ! i = ?d1 ! i" using i by (subst fold_update_shift) (simp_all add: fold_update_const_length)
    also have "\<dots> = ConstantNull ext" using i il by (simp add: fold_update_const)
    finally show "GetValue (chunk_data (result\<lparr> chunk_size := length ks, chunk_data := ?d2 \<rparr>) ! i) r = None"
      using r len by (simp add: GetValue_ConstantNull)
  next
    fix r i assume r: "r < length ks" and i: "i < build_count ht"
    have "?l + i < length ?d1" using i cols by (simp add: fold_update_const_length ColumnCount_def)
    then have "?d2 ! (?l + i) = Gather (heap ht) ks (offsets ht ! (condition_count ht + i))"
      using i by (subst fold_update_shift) simp_all
    then show "GetValue (chunk_data (result\<lparr> chunk_size := length ks, chunk_data := ?d2 \<rparr>) ! (?l + i)) r =
          columns (heap ht) (ks ! r + offsets ht ! (condition_count ht + i))"
      using r by (simp add: GetValue_Gather)
  qed
  have em0: "ks = [] \<Longrightarrow> emitted_chunk ht ?l (result\<lparr> chunk_size := 0 \<rparr>) []"
    by (simp add: emitted_chunk_def)
  have res: "ScanFullOuter ext ht result state =
      (if ks = [] then (result\<lparr> chunk_size := 0 \<rparr>, st', [])
       else (result\<lparr> chunk_size := length ks, chunk_data := ?d2 \<rparr>, st', ks))"
    using b by (simp add: ScanFullOuter_def Let_def ColumnCount_def)
  show ?thesis
  proof (cases "ks = []")
    case True
    have r: "ScanFullOuter ext ht result state = (result\<lparr> chunk_size := 0 \<rparr>, st', [])"
      using res True by simp
    have t: "[] = take ?V (filter (not_found ht) (remaining_rows ht state))" using ks True by simp
    show ?thesis unfolding r using t rest em0[OF True] by simp
  next
    case False
    have r: "ScanFullOuter ext ht result state =
               (result\<lparr> chunk_size := length ks, chunk_data := ?d2 \<rparr>, st', ks)"
      using res False by simp
    show ?thesis unfolding r using ks rest em by blast
  qed
qed

lemma ScanFullOuter_calls_spec:
  assumes vs: "0 < STANDARD_VECTOR_SIZE ext" and cols: "build_count ht \<le> ColumnCount result"
  shows "concat (map snd (ScanFullOuter_calls ext ht result n state)) =
           take (n * STANDARD_VECTOR_SIZE ext) (filter (not_found ht) (remaining_rows ht state)) \<and>
         list_all (\<lambda>(chunk, addresses). emitted_chunk ht (ColumnCount result - build_count ht) chunk addresses)
           (ScanFullOuter_calls ext ht result n state)"
proof (induction n arbitrary: state)
  case 0
  then show ?case by simp
next
  case (Suc n)
  obtain chunk st' ks where s: "ScanFullOuter ext ht result state = (chunk, st', ks)"
    by (cases "ScanFullOuter ext ht result state")
  let ?V = "STANDARD_VECTOR_SIZE ext"
  let ?X = "filter (not_found ht) (remaining_rows ht state)"
  from ScanFullOuter_spec[OF vs cols, of state] s
  have ks: "ks = take ?V ?X"
    and rest: "filter (not_found ht) (remaining_rows ht st') = drop ?V ?X"
    and em: "emitted_chunk ht (ColumnCount result - build_count ht) chunk ks"
    by auto
  have "take (Suc n * ?V) ?X = take ?V ?X @ take (n * ?V) (drop ?V ?X)"
    using take_add[of ?V "n * ?V" ?X] by simp
  then show ?case using Suc.IH[of st'] s ks rest em by simp
qed

lemma remaining_rows_start: "remaining_rows ht \<lparr> position = 0, block_position = 0 \<rparr> = table_rows ht"
  by (cases "blocks (block_collection ht)") (simp_all add: remaining_rows_def table_rows_def drop_Suc)

text \<open>
  C3. \<open>ScanFullOuter\<close> is the resumable scan over the build rows: a call takes, from the
  position the scan state holds, the next rows whose found flag is false, up to one vector
  of them, and leaves the state behind the last row it looked at. In every chunk it emits,
  each probe-side column is NULL and each build-side column holds the value gathered from
  the row. Over the calls from the start of the table every build row is visited, and the
  rows emitted are exactly the rows whose found flag is false, in block order; a row whose
  flag is true is not emitted.
\<close>

theorem ScanFullOuter_emits_unmatched_rows:
  assumes "0 < STANDARD_VECTOR_SIZE ext" and "build_count ht \<le> ColumnCount result"
    and "length (filter (not_found ht) (table_rows ht)) \<le> n * STANDARD_VECTOR_SIZE ext"
  shows "concat (map snd (ScanFullOuter_calls ext ht result n \<lparr> position = 0, block_position = 0 \<rparr>)) =
           filter (not_found ht) (table_rows ht) \<and>
         list_all (\<lambda>(chunk, addresses).
                     emitted_chunk ht (ColumnCount result - build_count ht) chunk addresses)
           (ScanFullOuter_calls ext ht result n \<lparr> position = 0, block_position = 0 \<rparr>) \<and>
         (case ScanFullOuter ext ht result state of (chunk, state', addresses) \<Rightarrow>
            addresses = take (STANDARD_VECTOR_SIZE ext) (filter (not_found ht) (remaining_rows ht state)) \<and>
            filter (not_found ht) (remaining_rows ht state') =
              drop (STANDARD_VECTOR_SIZE ext) (filter (not_found ht) (remaining_rows ht state)) \<and>
            emitted_chunk ht (ColumnCount result - build_count ht) chunk addresses)"
proof -
  have "concat (map snd (ScanFullOuter_calls ext ht result n \<lparr> position = 0, block_position = 0 \<rparr>)) =
        take (n * STANDARD_VECTOR_SIZE ext) (filter (not_found ht) (table_rows ht))"
    using ScanFullOuter_calls_spec[OF assms(1,2), of n "\<lparr> position = 0, block_position = 0 \<rparr>"]
    by (simp add: remaining_rows_start)
  then have 1: "concat (map snd (ScanFullOuter_calls ext ht result n \<lparr> position = 0, block_position = 0 \<rparr>)) =
        filter (not_found ht) (table_rows ht)"
    using assms(3) by simp
  have 2: "list_all (\<lambda>(chunk, addresses).
                     emitted_chunk ht (ColumnCount result - build_count ht) chunk addresses)
           (ScanFullOuter_calls ext ht result n \<lparr> position = 0, block_position = 0 \<rparr>)"
    using ScanFullOuter_calls_spec[OF assms(1,2), of n "\<lparr> position = 0, block_position = 0 \<rparr>"] by simp
  show ?thesis using 1 2 ScanFullOuter_spec[OF assms(1,2), of state] by blast
qed

lemmas ex_outer_simps = ex_ht_outer_def ex_ext_def ex_mem_def JoinHashTable_new_def
  InitializeHistogram_def

lemma ex_outer_rows: "table_rows ex_ht_outer = [1000, 1032, 1064, 2000, 2032, 2064]"
  by (simp add: table_rows_def block_rows_def ex_outer_simps upt_rec)

lemma ex_outer_not_found:
  "filter (not_found ex_ht_outer) (table_rows ex_ht_outer) = [1000, 1064, 2000, 2032, 2064]"
  unfolding ex_outer_rows by (simp add: not_found_def ex_outer_simps)

theorem ScanFullOuter_emits_unmatched_rows_witness:
  "concat (map snd (ScanFullOuter_calls ex_ext ex_ht_outer ex_result 2
                      \<lparr> position = 0, block_position = 0 \<rparr>)) =
     [1000, 1064, 2000, 2032, 2064] \<and>
   snd (snd (ScanFullOuter ex_ext ex_ht_outer ex_result \<lparr> position = 0, block_position = 0 \<rparr>)) =
     [1000, 1064, 2000, 2032]"
proof -
  have h: "0 < STANDARD_VECTOR_SIZE ex_ext" "build_count ex_ht_outer \<le> ColumnCount ex_result"
    "length (filter (not_found ex_ht_outer) (table_rows ex_ht_outer)) \<le> 2 * STANDARD_VECTOR_SIZE ex_ext"
    unfolding ex_outer_not_found by (simp_all add: ex_outer_simps ex_result_def ColumnCount_def)
  have v: "STANDARD_VECTOR_SIZE ex_ext = 4" by (simp add: ex_ext_def)
  show ?thesis
    using ScanFullOuter_emits_unmatched_rows[OF h, of "\<lparr> position = 0, block_position = 0 \<rparr>"]
    unfolding remaining_rows_start ex_outer_not_found v
    by (auto split: prod.splits)
qed

subsection \<open>Advancing the pointers\<close>

lemma lanes_from_Cons:
  "i < n \<Longrightarrow> lanes_from src sv i n = src_index src sv i # lanes_from src sv (Suc i) n"
  by (simp add: lanes_from_def upt_conv_Cons)

lemma lanes_from_Nil: "\<not> i < n \<Longrightarrow> lanes_from src sv i n = []"
  by (simp add: lanes_from_def)

lemma lanes_from_update:
  "rc \<le> i \<Longrightarrow> lanes_from src (sv[rc := x]) (Suc i) n = lanes_from src sv (Suc i) n"
  unfolding lanes_from_def by (rule src_index_update)

lemma load_loop_post_step:
  assumes post: "load_loop_post load L' p2 s2 rc2 r"
    and p2: "p2 = ptrs[idx := load (ptrs ! idx)]" and idx: "idx < length ptrs" "idx \<notin> set L'"
    and s2: "if load (ptrs ! idx) \<noteq> 0 then take rc2 s2 = take rc sv @ [idx] \<and> rc2 = Suc rc
             else take rc2 s2 = take rc sv \<and> rc2 = rc"
    and len: "length s2 = length sv"
  shows "load_loop_post load (idx # L') ptrs sv rc r"
proof -
  obtain ptrs' sv' rc' where r: "r = (ptrs', sv', rc')" by (cases r) auto
  have fl: "filter (\<lambda>j. load (p2 ! j) \<noteq> 0) L' = filter (\<lambda>j. load (ptrs ! j) \<noteq> 0) L'"
  proof (rule filter_cong[OF refl])
    fix j assume "j \<in> set L'"
    then have "j \<noteq> idx" using idx by blast
    then show "(load (p2 ! j) \<noteq> 0) = (load (ptrs ! j) \<noteq> 0)" unfolding p2 by simp
  qed
  from post[unfolded load_loop_post_def r fl] have
    a: "length sv' = length s2" "length ptrs' = length p2"
    and b: "rc' = rc2 + length (filter (\<lambda>idx. load (ptrs ! idx) \<noteq> 0) L')"
    and c: "take rc' sv' = take rc2 s2 @ filter (\<lambda>idx. load (ptrs ! idx) \<noteq> 0) L'"
    and e: "\<forall>j\<in>set L'. ptrs' ! j = load (p2 ! j)"
    and f: "\<forall>j. j \<notin> set L' \<longrightarrow> ptrs' ! j = p2 ! j"
    by auto
  have e1: "ptrs' ! idx = load (ptrs ! idx)" using f idx unfolding p2 by simp
  have e2: "\<forall>j\<in>set L'. ptrs' ! j = load (ptrs ! j)"
  proof
    fix j assume j: "j \<in> set L'"
    then have "j \<noteq> idx" using idx by blast
    then show "ptrs' ! j = load (ptrs ! j)" using e j unfolding p2 by simp
  qed
  have f': "\<forall>j. j \<notin> set (idx # L') \<longrightarrow> ptrs' ! j = ptrs ! j"
    using f unfolding p2 by simp
  have len': "length ptrs' = length ptrs" using a(2) unfolding p2 by simp
  show ?thesis
  proof (cases "load (ptrs ! idx) \<noteq> 0")
    case True
    then have "take rc2 s2 = take rc sv @ [idx]" "rc2 = Suc rc" using s2 by auto
    then show ?thesis
      unfolding load_loop_post_def r using True a(1) len len' b c e1 e2 f' by simp
  next
    case False
    then have "take rc2 s2 = take rc sv" "rc2 = rc" using s2 by auto
    then show ?thesis
      unfolding load_loop_post_def r using False a(1) len len' b c e1 e2 f' by simp
  qed
qed

lemma load_loop_spec:
  "rc \<le> i \<Longrightarrow> i \<le> n \<Longrightarrow> n \<le> length sv \<Longrightarrow>
   distinct (lanes_from src sv i n) \<Longrightarrow>
   \<forall>idx\<in>set (lanes_from src sv i n). idx < length ptrs \<Longrightarrow>
   load_loop_post load (lanes_from src sv i n) ptrs sv rc (load_loop load src n i (ptrs, sv, rc))"
proof (induction "n - i" arbitrary: i ptrs sv rc)
  case 0
  then have "\<not> i < n" by simp
  then show ?case
    by (subst load_loop.simps) (simp add: lanes_from_Nil load_loop_post_def)
next
  case (Suc k)
  then have lt: "i < n" by simp
  let ?idx = "src_index src sv i"
  let ?L' = "lanes_from src sv (Suc i) n"
  note up = lanes_from_Cons[OF lt, of src sv]
  have d: "?idx \<notin> set ?L'" "distinct ?L'" using Suc.prems(4) unfolding up by auto
  have r: "?idx < length ptrs" "\<forall>j\<in>set ?L'. j < length ptrs" using Suc.prems(5) unfolding up by auto
  let ?p2 = "ptrs[?idx := load (ptrs ! ?idx)]"
  have p2: "?p2 ! ?idx = load (ptrs ! ?idx)" using r by simp
  have r2: "\<forall>j\<in>set ?L'. j < length ?p2" using r by simp
  show ?case
  proof (cases "load (ptrs ! ?idx) \<noteq> 0")
    case True
    let ?s2 = "sv[rc := ?idx]"
    note L2 = lanes_from_update[OF Suc.prems(1), of src sv ?idx n]
    have step: "load_loop load src n i (ptrs, sv, rc) = load_loop load src n (Suc i) (?p2, ?s2, Suc rc)"
      using lt True p2 by (subst load_loop.simps) (simp add: Let_def)
    have "load_loop_post load (lanes_from src ?s2 (Suc i) n) ?p2 ?s2 (Suc rc)
            (load_loop load src n (Suc i) (?p2, ?s2, Suc rc))"
    proof (rule Suc.hyps(1))
      show "k = n - Suc i" using Suc.hyps(2) by simp
      show "Suc rc \<le> Suc i" using Suc.prems(1) by simp
      show "Suc i \<le> n" using lt by simp
      show "n \<le> length ?s2" using Suc.prems(3) by simp
      show "distinct (lanes_from src ?s2 (Suc i) n)" unfolding L2 by (rule d(2))
      show "\<forall>idx\<in>set (lanes_from src ?s2 (Suc i) n). idx < length ?p2" unfolding L2 by (rule r2)
    qed
    then have post: "load_loop_post load ?L' ?p2 ?s2 (Suc rc) (load_loop load src n (Suc i) (?p2, ?s2, Suc rc))"
      unfolding L2 .
    have tk: "take (Suc rc) ?s2 = take rc sv @ [?idx]"
      using Suc.prems(1,3) lt by (simp add: take_Suc_conv_app_nth)
    show ?thesis unfolding step up
      by (rule load_loop_post_step[OF post refl r(1) d(1)]) (use True tk in simp_all)
  next
    case False
    have step: "load_loop load src n i (ptrs, sv, rc) = load_loop load src n (Suc i) (?p2, sv, rc)"
      using lt False p2 by (subst load_loop.simps) (simp add: Let_def)
    have post: "load_loop_post load ?L' ?p2 sv rc (load_loop load src n (Suc i) (?p2, sv, rc))"
    proof (rule Suc.hyps(1))
      show "k = n - Suc i" using Suc.hyps(2) by simp
      show "rc \<le> Suc i" using Suc.prems(1) by simp
      show "Suc i \<le> n" using lt by simp
      show "n \<le> length sv" using Suc.prems(3) by simp
      show "distinct ?L'" by (rule d(2))
      show "\<forall>idx\<in>set ?L'. idx < length ?p2" by (rule r2)
    qed
    show ?thesis unfolding step up
      by (rule load_loop_post_step[OF post refl r(1) d(1)]) (use False in simp_all)
  qed
qed

lemma lanes_from_selected: "lanes_from src sv 0 n = selected src sv n"
  by (simp add: lanes_from_def selected_def)

lemma selected_Same: "n \<le> length sv \<Longrightarrow> selected Same sv n = take n sv"
  unfolding selected_def by (intro nth_equalityI) auto

lemma AdvancePointers_spec:
  assumes "sel_count \<le> length (sel_vector ss)"
    and "distinct (selected sel (sel_vector ss) sel_count)"
    and "\<forall>idx\<in>set (selected sel (sel_vector ss) sel_count). idx < length (pointers ss)"
  shows "ss_count (AdvancePointers ht ss sel sel_count) \<le> sel_count"
    and "live_lanes (AdvancePointers ht ss sel sel_count) =
           filter (\<lambda>idx. next_pointer ht (pointers ss ! idx) \<noteq> 0) (selected sel (sel_vector ss) sel_count)"
    and "\<forall>idx\<in>set (selected sel (sel_vector ss) sel_count).
           pointers (AdvancePointers ht ss sel sel_count) ! idx = next_pointer ht (pointers ss ! idx)"
    and "\<forall>j. j \<notin> set (selected sel (sel_vector ss) sel_count) \<longrightarrow>
           pointers (AdvancePointers ht ss sel sel_count) ! j = pointers ss ! j"
    and "length (sel_vector (AdvancePointers ht ss sel sel_count)) = length (sel_vector ss)"
    and "length (pointers (AdvancePointers ht ss sel sel_count)) = length (pointers ss)"
    and "found_match (AdvancePointers ht ss sel sel_count) = found_match ss"
    and "finished (AdvancePointers ht ss sel sel_count) = finished ss"
proof -
  let ?L = "selected sel (sel_vector ss) sel_count"
  obtain ptrs' sv' rc' where r:
    "load_loop (next_pointer ht) sel sel_count 0 (pointers ss, sel_vector ss, 0) = (ptrs', sv', rc')"
    by (cases "load_loop (next_pointer ht) sel sel_count 0 (pointers ss, sel_vector ss, 0)") auto
  have "load_loop_post (next_pointer ht) ?L (pointers ss) (sel_vector ss) 0 (ptrs', sv', rc')"
    using load_loop_spec[of 0 0 sel_count "sel_vector ss" sel "pointers ss" "next_pointer ht"] assms
    unfolding lanes_from_selected r by simp
  then have
    a: "length sv' = length (sel_vector ss)" "length ptrs' = length (pointers ss)"
    and b: "rc' = length (filter (\<lambda>idx. next_pointer ht (pointers ss ! idx) \<noteq> 0) ?L)"
    and c: "take rc' sv' = filter (\<lambda>idx. next_pointer ht (pointers ss ! idx) \<noteq> 0) ?L"
    and e: "\<forall>idx\<in>set ?L. ptrs' ! idx = next_pointer ht (pointers ss ! idx)"
    and f: "\<forall>j. j \<notin> set ?L \<longrightarrow> ptrs' ! j = pointers ss ! j"
    unfolding load_loop_post_def by auto
  have ap: "AdvancePointers ht ss sel sel_count = ss\<lparr> pointers := ptrs', sel_vector := sv', ss_count := rc' \<rparr>"
    by (simp add: AdvancePointers_def r)
  have "rc' \<le> length ?L" unfolding b by (rule length_filter_le)
  then show "ss_count (AdvancePointers ht ss sel sel_count) \<le> sel_count"
    by (simp add: ap selected_def)
  show "live_lanes (AdvancePointers ht ss sel sel_count) =
           filter (\<lambda>idx. next_pointer ht (pointers ss ! idx) \<noteq> 0) ?L"
    using c by (simp add: ap live_lanes_def)
  show "\<forall>idx\<in>set ?L. pointers (AdvancePointers ht ss sel sel_count) ! idx = next_pointer ht (pointers ss ! idx)"
    using e by (simp add: ap)
  show "\<forall>j. j \<notin> set ?L \<longrightarrow> pointers (AdvancePointers ht ss sel sel_count) ! j = pointers ss ! j"
    using f by (simp add: ap)
  show "length (sel_vector (AdvancePointers ht ss sel sel_count)) = length (sel_vector ss)"
    "length (pointers (AdvancePointers ht ss sel sel_count)) = length (pointers ss)"
    "found_match (AdvancePointers ht ss sel sel_count) = found_match ss"
    "finished (AdvancePointers ht ss sel sel_count) = finished ss"
    using a by (simp_all add: ap)
qed

lemma chain_walk_next:
  "p \<noteq> 0 \<Longrightarrow> chain_walk (Suc n) c off p \<noteq> None \<Longrightarrow> chain_walk n c off (c (p + off)) \<noteq> None"
  by auto

lemma chain_walk_zero: "p \<noteq> 0 \<Longrightarrow> chain_walk 0 c off p = None"
  by simp

text \<open>Advancing a selection of a well-formed structure: the structure stays well-formed.\<close>

lemma AdvancePointers_wf:
  assumes "sel_count \<le> length (sel_vector ss)"
    and "distinct (selected sel (sel_vector ss) sel_count)"
    and "\<forall>idx\<in>set (selected sel (sel_vector ss) sel_count). idx < length (pointers ss)"
  shows "ss_wf (AdvancePointers ht ss sel sel_count)"
proof -
  note s = AdvancePointers_spec[OF assms, of ht]
  have "ss_count (AdvancePointers ht ss sel sel_count) \<le> length (sel_vector (AdvancePointers ht ss sel sel_count))"
    using s(1) s(5) assms(1) by simp
  moreover have "distinct (live_lanes (AdvancePointers ht ss sel sel_count))"
    unfolding s(2) using assms(2) by simp
  moreover have "list_all (\<lambda>idx. idx < length (pointers (AdvancePointers ht ss sel sel_count)))
                  (live_lanes (AdvancePointers ht ss sel sel_count))"
    unfolding s(2) s(6) using assms(3) by (simp add: list_all_iff)
  ultimately show ?thesis by (simp add: ss_wf_def)
qed

lemma AdvancePointers_chains:
  assumes "sel_count \<le> length (sel_vector ss)"
    and "distinct (selected sel (sel_vector ss) sel_count)"
    and "\<forall>idx\<in>set (selected sel (sel_vector ss) sel_count). idx < length (pointers ss)"
    and "\<forall>idx\<in>set (selected sel (sel_vector ss) sel_count).
           pointers ss ! idx \<noteq> 0 \<and>
           chain_walk (Suc n) (cells (heap ht)) (pointer_offset ht) (pointers ss ! idx) \<noteq> None"
  shows "chains_end_within ht n (AdvancePointers ht ss sel sel_count)"
proof -
  note s = AdvancePointers_spec[OF assms(1,2,3), of ht]
  show ?thesis
    unfolding chains_end_within_def list_all_iff s(2)
  proof
    fix idx assume "idx \<in> set (filter (\<lambda>idx. next_pointer ht (pointers ss ! idx) \<noteq> 0)
                                   (selected sel (sel_vector ss) sel_count))"
    then have m: "idx \<in> set (selected sel (sel_vector ss) sel_count)"
      and nz: "next_pointer ht (pointers ss ! idx) \<noteq> 0" by auto
    have p: "pointers (AdvancePointers ht ss sel sel_count) ! idx = next_pointer ht (pointers ss ! idx)"
      using s(3) m by blast
    have "chain_walk n (cells (heap ht)) (pointer_offset ht) (next_pointer ht (pointers ss ! idx)) \<noteq> None"
      unfolding next_pointer_def using assms(4) m by (intro chain_walk_next) auto
    then show "pointers (AdvancePointers ht ss sel sel_count) ! idx \<noteq> 0 \<and>
          chain_walk n (cells (heap ht)) (pointer_offset ht)
            (pointers (AdvancePointers ht ss sel sel_count) ! idx) \<noteq> None"
      unfolding p using nz by simp
  qed
qed

lemma chains_end_within_0:
  assumes "ss_wf ss" "chains_end_within ht 0 ss"
  shows "ss_count ss = 0"
proof (rule ccontr)
  assume "ss_count ss \<noteq> 0"
  then have "live_lanes ss \<noteq> []" using assms(1) by (auto simp: ss_wf_def live_lanes_def)
  then obtain idx where "idx \<in> set (live_lanes ss)" by (cases "live_lanes ss") auto
  then have "pointers ss ! idx \<noteq> 0"
    "chain_walk 0 (cells (heap ht)) (pointer_offset ht) (pointers ss ! idx) \<noteq> None"
    using assms(2) by (auto simp: chains_end_within_def list_all_iff)
  then show False by simp
qed

lemma live_selected: "ss_wf ss \<Longrightarrow> selected Same (sel_vector ss) (ss_count ss) = live_lanes ss"
  by (simp add: ss_wf_def selected_Same live_lanes_def)

lemma AdvancePointers_self_wf:
  assumes "ss_wf ss"
  shows "ss_wf (AdvancePointers_self ht ss)"
    and "live_lanes (AdvancePointers_self ht ss) =
           filter (\<lambda>idx. next_pointer ht (pointers ss ! idx) \<noteq> 0) (live_lanes ss)"
    and "chains_end_within ht (Suc n) ss \<Longrightarrow> chains_end_within ht n (AdvancePointers_self ht ss)"
proof -
  have h: "ss_count ss \<le> length (sel_vector ss)"
    "distinct (selected Same (sel_vector ss) (ss_count ss))"
    "\<forall>idx\<in>set (selected Same (sel_vector ss) (ss_count ss)). idx < length (pointers ss)"
    using assms unfolding live_selected[OF assms] by (simp_all add: ss_wf_def list_all_iff)
  show "ss_wf (AdvancePointers_self ht ss)"
    unfolding AdvancePointers_self_def by (rule AdvancePointers_wf[OF h])
  show "live_lanes (AdvancePointers_self ht ss) =
           filter (\<lambda>idx. next_pointer ht (pointers ss ! idx) \<noteq> 0) (live_lanes ss)"
    unfolding AdvancePointers_self_def using AdvancePointers_spec(2)[OF h, of ht]
    by (simp add: live_selected[OF assms])
  assume "chains_end_within ht (Suc n) ss"
  then have "\<forall>idx\<in>set (selected Same (sel_vector ss) (ss_count ss)).
           pointers ss ! idx \<noteq> 0 \<and>
           chain_walk (Suc n) (cells (heap ht)) (pointer_offset ht) (pointers ss ! idx) \<noteq> None"
    unfolding live_selected[OF assms] by (simp add: chains_end_within_def list_all_iff)
  then show "chains_end_within ht n (AdvancePointers_self ht ss)"
    unfolding AdvancePointers_self_def by (rule AdvancePointers_chains[OF h])
qed

lemma AdvancePointers_self_funpow_wf:
  "ss_wf ss \<Longrightarrow> ss_wf ((AdvancePointers_self ht ^^ k) ss)"
  by (induction k) (simp_all add: AdvancePointers_self_wf(1))

lemma AdvancePointers_self_funpow_ends:
  "ss_wf ss \<Longrightarrow> chains_end_within ht n ss \<Longrightarrow> ss_count ((AdvancePointers_self ht ^^ n) ss) = 0"
proof (induction n arbitrary: ss)
  case 0
  then show ?case using chains_end_within_0 by simp
next
  case (Suc n)
  have "ss_count ((AdvancePointers_self ht ^^ n) (AdvancePointers_self ht ss)) = 0"
    using Suc.prems by (intro Suc.IH AdvancePointers_self_wf)
  then show ?case by (simp add: funpow_swap1)
qed

subsection \<open>The matching loops return\<close>

lemma selected_Buffered: "selected (Other (Buffered l)) sv (length l) = l"
  unfolding selected_def by (intro nth_equalityI) auto

lemma ResolvePredicates_lanes:
  "fst (ResolvePredicates ext ht keys ss) = filter (\<lambda>idx. Match ext ht keys idx (pointers ss ! idx)) (live_lanes ss)"
  "snd (ResolvePredicates ext ht keys ss) = filter (\<lambda>idx. \<not> Match ext ht keys idx (pointers ss ! idx)) (live_lanes ss)"
  by (simp_all add: ResolvePredicates_def live_lanes_def Let_def)

lemma ResolvePredicates_count:
  assumes "ss_wf ss"
  shows "ss_count ss - length (fst (ResolvePredicates ext ht keys ss)) = length (snd (ResolvePredicates ext ht keys ss))"
proof -
  have "length (live_lanes ss) = ss_count ss"
    using assms by (simp add: ss_wf_def live_lanes_def)
  moreover have "length (filter (\<lambda>idx. Match ext ht keys idx (pointers ss ! idx)) (live_lanes ss)) +
        length (filter (\<lambda>idx. \<not> Match ext ht keys idx (pointers ss ! idx)) (live_lanes ss)) = length (live_lanes ss)"
    by (rule sum_length_filter_compl)
  ultimately show ?thesis unfolding ResolvePredicates_lanes by linarith
qed

lemma advance_no_match_spec:
  assumes wf: "ss_wf ss"
  shows "ss_wf (advance_no_match ext ht keys ss fm)"
    and "chains_end_within ht (Suc n) ss \<Longrightarrow> chains_end_within ht n (advance_no_match ext ht keys ss fm)"
    and "found_match (advance_no_match ext ht keys ss fm) = fm"
    and "finished (advance_no_match ext ht keys ss fm) = finished ss"
    and "set (live_lanes (advance_no_match ext ht keys ss fm)) \<subseteq> set (live_lanes ss)"
proof -
  let ?nm = "snd (ResolvePredicates ext ht keys ss)"
  let ?s = "ss\<lparr> found_match := fm \<rparr>"
  have cnt: "ss_count ss - length (fst (ResolvePredicates ext ht keys ss)) = length ?nm"
    by (rule ResolvePredicates_count[OF wf])
  have sel: "selected (Other (Buffered ?nm)) (sel_vector ?s) (length ?nm) = ?nm"
    by (rule selected_Buffered)
  have sub: "set ?nm \<subseteq> set (live_lanes ss)" unfolding ResolvePredicates_lanes by auto
  have len: "length ?nm \<le> length (live_lanes ss)"
    unfolding ResolvePredicates_lanes by (rule length_filter_le)
  have h1: "length ?nm \<le> length (sel_vector ?s)"
    using len wf by (simp add: ss_wf_def live_lanes_def)
  have "distinct ?nm" unfolding ResolvePredicates_lanes using wf by (simp add: ss_wf_def)
  then have h2: "distinct (selected (Other (Buffered ?nm)) (sel_vector ?s) (length ?nm))"
    unfolding sel .
  have h3: "\<forall>idx\<in>set (selected (Other (Buffered ?nm)) (sel_vector ?s) (length ?nm)). idx < length (pointers ?s)"
    unfolding sel using sub wf by (auto simp: ss_wf_def list_all_iff)
  show "ss_wf (advance_no_match ext ht keys ss fm)"
    unfolding advance_no_match_def cnt by (rule AdvancePointers_wf[OF h1 h2 h3])
  show "found_match (advance_no_match ext ht keys ss fm) = fm"
    unfolding advance_no_match_def cnt using AdvancePointers_spec(7)[OF h1 h2 h3, of ht] by simp
  show "finished (advance_no_match ext ht keys ss fm) = finished ss"
    unfolding advance_no_match_def cnt using AdvancePointers_spec(8)[OF h1 h2 h3, of ht] by simp
  show "set (live_lanes (advance_no_match ext ht keys ss fm)) \<subseteq> set (live_lanes ss)"
    unfolding advance_no_match_def cnt AdvancePointers_spec(2)[OF h1 h2 h3, of ht] sel
    using sub by auto
  assume "chains_end_within ht (Suc n) ss"
  then have h4: "\<forall>idx\<in>set (selected (Other (Buffered ?nm)) (sel_vector ?s) (length ?nm)).
           pointers ?s ! idx \<noteq> 0 \<and>
           chain_walk (Suc n) (cells (heap ht)) (pointer_offset ht) (pointers ?s ! idx) \<noteq> None"
    unfolding sel using sub by (auto simp: chains_end_within_def list_all_iff simp del: chain_walk.simps)
  show "chains_end_within ht n (advance_no_match ext ht keys ss fm)"
    unfolding advance_no_match_def cnt by (rule AdvancePointers_chains[OF h1 h2 h3 h4])
qed

lemma mark_found_Some: "\<exists>f'. mark_found lanes (Some f) = Some (Some f')"
  by (simp add: mark_found_def)

lemma ScanKeyMatches_step:
  assumes "ss_count ss > 0" "found_match ss = Some f"
  shows "\<exists>f'. ScanKeyMatches ext ht keys ss = ScanKeyMatches ext ht keys (advance_no_match ext ht keys ss (Some f'))"
proof -
  obtain x1 x2 where r: "ResolvePredicates ext ht keys ss = (x1, x2)"
    by (cases "ResolvePredicates ext ht keys ss") auto
  obtain f' where m: "mark_found x1 (Some f) = Some (Some f')"
    using mark_found_Some by blast
  have "ScanKeyMatches ext ht keys ss = ScanKeyMatches ext ht keys (advance_no_match ext ht keys ss (Some f'))"
    by (subst ScanKeyMatches.simps)
       (simp add: assms r m advance_no_match_def)
  then show ?thesis by blast
qed

text \<open>
  \<open>ScanKeyMatches\<close> returns when every chain ends: the result has no live lane and still
  has its \<open>found_match\<close> array.
\<close>

lemma ScanKeyMatches_returns:
  "ss_wf ss \<Longrightarrow> chains_end_within ht n ss \<Longrightarrow> found_match ss = Some f \<Longrightarrow>
   \<exists>ss1 f1. ScanKeyMatches ext ht keys ss = Some ss1 \<and> ss_count ss1 = 0 \<and>
            found_match ss1 = Some f1 \<and> finished ss1 = finished ss"
proof (induction n arbitrary: ss f)
  case 0
  have "ss_count ss = 0" using 0 chains_end_within_0 by blast
  then have "ScanKeyMatches ext ht keys ss = Some ss"
    by (subst ScanKeyMatches.simps) simp
  then show ?case using 0 \<open>ss_count ss = 0\<close> by simp
next
  case (Suc n)
  show ?case
  proof (cases "ss_count ss > 0")
    case False
    then have "ScanKeyMatches ext ht keys ss = Some ss"
      by (subst ScanKeyMatches.simps) simp
    then show ?thesis using Suc.prems False by simp
  next
    case True
    obtain f' where st: "ScanKeyMatches ext ht keys ss =
        ScanKeyMatches ext ht keys (advance_no_match ext ht keys ss (Some f'))"
      using ScanKeyMatches_step[OF True Suc.prems(3)] by blast
    note a = advance_no_match_spec[OF Suc.prems(1), where ext = ext and ht = ht and keys = keys and fm = "Some f'"]
    have "\<exists>ss1 f1. ScanKeyMatches ext ht keys (advance_no_match ext ht keys ss (Some f')) = Some ss1 \<and>
            ss_count ss1 = 0 \<and> found_match ss1 = Some f1 \<and>
            finished ss1 = finished (advance_no_match ext ht keys ss (Some f'))"
      by (rule Suc.IH[OF a(1) a(2)[OF Suc.prems(2)] a(3)])
    then show ?thesis unfolding st a(4) .
  qed
qed

lemma NextSingleJoin_loop_step:
  assumes "ss_count ss > 0" "found_match ss = Some f"
  shows "\<exists>f'. NextSingleJoin_loop ext ht keys ss rs =
               NextSingleJoin_loop ext ht keys (advance_no_match ext ht keys ss (Some f'))
                 (rs @ fst (ResolvePredicates ext ht keys ss))"
proof -
  obtain x1 x2 where r: "ResolvePredicates ext ht keys ss = (x1, x2)"
    by (cases "ResolvePredicates ext ht keys ss") auto
  obtain f' where m: "mark_found x1 (Some f) = Some (Some f')"
    using mark_found_Some by blast
  have "NextSingleJoin_loop ext ht keys ss rs =
        NextSingleJoin_loop ext ht keys (advance_no_match ext ht keys ss (Some f'))
          (rs @ fst (ResolvePredicates ext ht keys ss))"
    by (subst NextSingleJoin_loop.simps)
       (simp add: assms r m advance_no_match_def)
  then show ?thesis by blast
qed

lemma NextSingleJoin_loop_returns:
  "ss_wf ss \<Longrightarrow> chains_end_within ht n ss \<Longrightarrow> found_match ss = Some f \<Longrightarrow>
   \<exists>ss1 rs1. NextSingleJoin_loop ext ht keys ss rs = Some (ss1, rs1) \<and> ss_count ss1 = 0"
proof (induction n arbitrary: ss f rs)
  case 0
  have "ss_count ss = 0" using 0 chains_end_within_0 by blast
  then have "NextSingleJoin_loop ext ht keys ss rs = Some (ss, rs)"
    by (subst NextSingleJoin_loop.simps) simp
  then show ?case using \<open>ss_count ss = 0\<close> by simp
next
  case (Suc n)
  show ?case
  proof (cases "ss_count ss > 0")
    case False
    then have "NextSingleJoin_loop ext ht keys ss rs = Some (ss, rs)"
      by (subst NextSingleJoin_loop.simps) simp
    then show ?thesis using False by simp
  next
    case True
    obtain f' where st: "NextSingleJoin_loop ext ht keys ss rs =
        NextSingleJoin_loop ext ht keys (advance_no_match ext ht keys ss (Some f'))
          (rs @ fst (ResolvePredicates ext ht keys ss))"
      using NextSingleJoin_loop_step[OF True Suc.prems(3)] by blast
    note a = advance_no_match_spec[OF Suc.prems(1), where ext = ext and ht = ht and keys = keys and fm = "Some f'"]
    show ?thesis unfolding st
      by (rule Suc.IH[OF a(1) a(2)[OF Suc.prems(2)] a(3)])
  qed
qed

subsection \<open>Example scan structure\<close>

lemma ex_ss_wf: "ss_wf ex_ss"
  by (simp add: ss_wf_def live_lanes_def ex_ss_def)

lemma ex_ss_chain:
  "chain_walk 2 (cells (heap ex_ht_chain)) (pointer_offset ex_ht_chain) (pointers ex_ss ! 0)
     = Some [1016, 1000]"
  by (simp add: ex_ht_chain_def ex_ht_eq_def JoinHashTable_new_def ex_ss_def ex_mem_def numeral_2_eq_2)

lemma ex_ss_chains: "chains_end_within ex_ht_chain 2 ex_ss"
proof -
  have "live_lanes ex_ss = [0]" by (simp add: live_lanes_def ex_ss_def)
  moreover have "pointers ex_ss ! 0 \<noteq> 0" by (simp add: ex_ss_def)
  ultimately show ?thesis unfolding chains_end_within_def using ex_ss_chain by simp
qed

subsection \<open>AdvancePointers and the end of the chain walks\<close>

text \<open>
  C9, as the code has it. A call of \<open>AdvancePointers\<close> with a selection of \<open>sel_count\<close> distinct
  lanes of the pointer vector leaves at most \<open>sel_count\<close> live lanes; the live lanes
  after the call are the lanes of the selection whose next pointer, loaded from the
  lane's current row at \<open>pointer_offset\<close>, is not null, in the order of the selection.
  Repeated advancing of a well-formed scan structure never adds a live lane, and when
  every live lane points to a row whose chain ends within \<open>n\<close> rows, no lane is live
  after \<open>n\<close> advances; the chain walk of \<open>ScanKeyMatches\<close> then returns with no live
  lane. (A single advance need not remove a lane: a lane on a longer chain stays live.)
\<close>

theorem AdvancePointers_survivors:
  assumes "sel_count \<le> length (sel_vector ss)"
    and "distinct (selected sel (sel_vector ss) sel_count)"
    and "\<forall>idx\<in>set (selected sel (sel_vector ss) sel_count). idx < length (pointers ss)"
    and "ss_wf s" and "chains_end_within ht n s"
  shows "ss_count (AdvancePointers ht ss sel sel_count) \<le> sel_count \<and>
         live_lanes (AdvancePointers ht ss sel sel_count) =
           filter (\<lambda>idx. next_pointer ht (pointers ss ! idx) \<noteq> 0)
             (selected sel (sel_vector ss) sel_count) \<and>
         (\<forall>k. set (live_lanes ((AdvancePointers_self ht ^^ Suc k) s))
                \<subseteq> set (live_lanes ((AdvancePointers_self ht ^^ k) s))) \<and>
         ss_count ((AdvancePointers_self ht ^^ n) s) = 0 \<and>
         (found_match s \<noteq> None \<longrightarrow>
            (\<exists>s1. ScanKeyMatches ext ht keys s = Some s1 \<and> ss_count s1 = 0))"
proof -
  have sub: "set (live_lanes ((AdvancePointers_self ht ^^ Suc k) s))
               \<subseteq> set (live_lanes ((AdvancePointers_self ht ^^ k) s))" for k
  proof -
    have w: "ss_wf ((AdvancePointers_self ht ^^ k) s)"
      using assms(4) by (rule AdvancePointers_self_funpow_wf)
    show ?thesis
      using AdvancePointers_self_wf(2)[OF w, of ht] by simp
  qed
  have ret: "\<exists>s1. ScanKeyMatches ext ht keys s = Some s1 \<and> ss_count s1 = 0"
    if fm: "found_match s \<noteq> None"
  proof -
    obtain f where "found_match s = Some f" using fm by auto
    then show ?thesis
      using ScanKeyMatches_returns[OF assms(4) assms(5), of f ext keys] by blast
  qed
  show ?thesis
    using AdvancePointers_spec(1,2)[OF assms(1,2,3), of ht]
      AdvancePointers_self_funpow_ends[OF assms(4,5)] sub ret
    by blast
qed

theorem AdvancePointers_survivors_witness:
  "ss_wf ex_ss \<and> chains_end_within ex_ht_chain 2 ex_ss \<and>
   live_lanes (AdvancePointers ex_ht_chain ex_ss Same 1) = [0] \<and>
   ss_count ((AdvancePointers_self ex_ht_chain ^^ 2) ex_ss) = 0"
proof -
  have h: "1 \<le> length (sel_vector ex_ss)" "distinct (selected Same (sel_vector ex_ss) 1)"
    "\<forall>idx\<in>set (selected Same (sel_vector ex_ss) 1). idx < length (pointers ex_ss)"
    by (simp_all add: ex_ss_def selected_def)
  have n: "next_pointer ex_ht_chain (pointers ex_ss ! 0) = 1000"
    by (simp add: next_pointer_def ex_ht_chain_def ex_ht_eq_def JoinHashTable_new_def ex_ss_def ex_mem_def)
  have s: "selected Same (sel_vector ex_ss) 1 = [0]" by (simp add: ex_ss_def selected_def)
  show ?thesis
    using AdvancePointers_survivors[OF h ex_ss_wf ex_ss_chains, of ex_ext ex_empty_chunk]
    unfolding s using n ex_ss_wf ex_ss_chains by simp
qed

text \<open>
  C9 as stated has every advance remove a live lane. A lane at the head of a chain of
  two rows is live before the advance and live after it, pointing to the second row.
\<close>

theorem AdvancePointers_lane_stays_live_counterexample:
  "chain_walk 2 (cells (heap ex_ht_chain)) (pointer_offset ex_ht_chain) (pointers ex_ss ! 0)
     = Some [1016, 1000] \<and>
   live_lanes ex_ss = [0] \<and>
   live_lanes (AdvancePointers_self ex_ht_chain ex_ss) = [0]"
proof -
  have l: "live_lanes ex_ss = [0]" by (simp add: live_lanes_def ex_ss_def)
  have n: "next_pointer ex_ht_chain (pointers ex_ss ! 0) = 1000"
    by (simp add: next_pointer_def ex_ht_chain_def ex_ht_eq_def JoinHashTable_new_def ex_ss_def ex_mem_def)
  have "live_lanes (AdvancePointers_self ex_ht_chain ex_ss) = [0]"
    unfolding AdvancePointers_self_wf(2)[OF ex_ss_wf] l using n by simp
  then show ?thesis using ex_ss_chain l by simp
qed

subsection \<open>Joins that finish in one call of Next\<close>

lemma NextSemiOrAntiJoin_returns:
  "found_match ss = Some f \<Longrightarrow> \<exists>r. NextSemiOrAntiJoin M keys left result ss = Some r"
  by (simp add: NextSemiOrAntiJoin_def Let_def)

lemma Next_finished: "finished ss \<Longrightarrow> Next ext ht keys left result ss = Some (Inr (ss, result, ht))"
  by (simp add: Next_def)

lemma Next_single_batch:
  assumes jt: "join_type ht = SEMI \<or> join_type ht = ANTI \<or> join_type ht = MARK \<or> join_type ht = SINGLE"
    and wf: "ss_wf ss" and ch: "chains_end_within ht n ss" and fm: "found_match ss = Some f"
    and nf: "\<not> finished ss"
  shows "\<exists>ss' result'. Next ext ht keys left result ss = Some (Inr (ss', result', ht)) \<and> finished ss'"
proof -
  obtain ss1 f1 where s: "ScanKeyMatches ext ht keys ss = Some ss1" "found_match ss1 = Some f1"
    using ScanKeyMatches_returns[OF wf ch fm, of ext keys] by blast
  obtain ss2 rs where l: "NextSingleJoin_loop ext ht keys ss [] = Some (ss2, rs)"
    using NextSingleJoin_loop_returns[OF wf ch fm, of ext keys "[]"] by blast
  obtain r1 where r1: "NextSemiOrAntiJoin True keys left result ss1 = Some r1"
    using NextSemiOrAntiJoin_returns[OF s(2)] by blast
  obtain r2 where r2: "NextSemiOrAntiJoin False keys left result ss1 = Some r2"
    using NextSemiOrAntiJoin_returns[OF s(2)] by blast
  from jt show ?thesis
  proof (elim disjE)
    assume "join_type ht = SEMI"
    then show ?thesis using nf s r1 by (simp add: Next_def with_table_def NextSemiJoin_def)
  next
    assume "join_type ht = ANTI"
    then show ?thesis using nf s r2 by (simp add: Next_def with_table_def NextAntiJoin_def)
  next
    assume "join_type ht = MARK"
    then show ?thesis using nf s by (simp add: Next_def with_table_def NextMarkJoin_def Let_def)
  next
    assume "join_type ht = SINGLE"
    then show ?thesis using nf l by (simp add: Next_def with_table_def NextSingleJoin_def Let_def)
  qed
qed

lemma ex_semi_chains: "chains_end_within ex_ht_semi 2 ex_ss"
  using ex_ss_chains by (simp add: chains_end_within_def ex_ht_semi_def)

text \<open>
  C7. For the join types SEMI, ANTI, MARK and SINGLE, one call of \<open>ScanStructure::Next\<close>
  on a well-formed scan structure (with its \<open>found_match\<close> array, as \<open>Probe\<close> allocates
  it for these join types) returns with \<open>finished = true\<close>, however long the chains of
  the live lanes are (\<open>n\<close> rows, for any \<open>n\<close>), and leaves the table as it was; every
  later call of \<open>Next\<close> on that scan structure, for any keys, input and result chunk,
  returns the scan structure, the result chunk and the table unchanged.
\<close>

theorem Next_finishes_in_one_call:
  assumes "join_type ht = SEMI \<or> join_type ht = ANTI \<or> join_type ht = MARK \<or> join_type ht = SINGLE"
    and "ss_wf ss" and "chains_end_within ht n ss" and "found_match ss = Some f"
  shows "\<exists>ss' result'.
           Next ext ht keys left result ss = Some (Inr (ss', result', ht)) \<and> finished ss' \<and>
           (\<forall>keys2 left2 result2.
              Next ext ht keys2 left2 result2 ss' = Some (Inr (ss', result2, ht)))"
proof (cases "finished ss")
  case True
  then show ?thesis using Next_finished by blast
next
  case False
  obtain ss' result' where "Next ext ht keys left result ss = Some (Inr (ss', result', ht))" "finished ss'"
    using Next_single_batch[OF assms False] by blast
  then show ?thesis using Next_finished by blast
qed

theorem Next_finishes_in_one_call_witness:
  "join_type ex_ht_semi = SEMI \<and> ss_wf ex_ss \<and> chains_end_within ex_ht_semi 2 ex_ss \<and>
   \<not> finished ex_ss \<and>
   (\<exists>ss' result'.
      Next ex_ext ex_ht_semi ex_probe_keys ex_probe_keys ex_probe_keys ex_ss
        = Some (Inr (ss', result', ex_ht_semi)) \<and> finished ss')"
proof -
  have j: "join_type ex_ht_semi = SEMI" by (simp add: ex_ht_semi_def)
  have f: "found_match ex_ss = Some [False, False, False, False]" "\<not> finished ex_ss"
    by (simp_all add: ex_ss_def)
  show ?thesis
    using Next_finishes_in_one_call[OF disjI1[OF j] ex_ss_wf ex_semi_chains f(1),
        of ex_ext ex_probe_keys ex_probe_keys ex_probe_keys] j ex_ss_wf ex_semi_chains f(2)
    by blast
qed

subsection \<open>The result of a mark join\<close>

lemma fold_if_filter:
  "fold (\<lambda>x m. if P x then g x m else m) xs m = fold g (filter P xs) m"
  by (induction xs arbitrary: m) simp_all

lemma mark_key_nulls_filter:
  "mark_key_nulls ext ht join_keys msk =
     fold (set_key_rows ext join_keys)
       (filter (masked_key_column ht join_keys) [0..<ColumnCount join_keys]) msk"
proof -
  have "(\<lambda>col_idx msk.
             if null_values_are_equal ht ! col_idx then msk
             else (let jdata = chunk_data join_keys ! col_idx
                   in if \<not> AllValid (vvalidity jdata)
                      then fold (\<lambda>i msk.
                                   (let jidx = get_index (vsel jdata) i
                                    in Set_mask (STANDARD_VECTOR_SIZE ext) msk i
                                         (RowIsValid (vvalidity jdata) jidx)))
                             [0..<chunk_size join_keys] msk
                      else msk))
        = (\<lambda>c m. if masked_key_column ht join_keys c then set_key_rows ext join_keys c m else m)"
    by (intro ext) (simp add: masked_key_column_def set_key_rows_def Let_def)
  then show ?thesis
    unfolding mark_key_nulls_def by (simp only: fold_if_filter)
qed

lemma Set_mask_cap: "mask_cap cap m \<Longrightarrow> mask_cap cap (Set_mask cap m i v)"
  by (auto simp: mask_cap_def Set_mask_def SetValid_def SetInvalid_def split: option.splits)

lemma SetInvalid_cap: "mask_cap cap m \<Longrightarrow> mask_cap cap (SetInvalid cap m i)"
  by (auto simp: mask_cap_def SetInvalid_def split: option.splits)

lemma RowIsValid_Set_mask:
  "mask_cap cap m \<Longrightarrow> i < cap \<Longrightarrow> j < cap \<Longrightarrow>
   RowIsValid (Set_mask cap m i v) j = (if j = i then v else RowIsValid m j)"
  by (auto simp: mask_cap_def Set_mask_def SetValid_def SetInvalid_def RowIsValid_def
           nth_list_update split: option.splits)

lemma RowIsValid_SetInvalid:
  "mask_cap cap m \<Longrightarrow> i < cap \<Longrightarrow> j < cap \<Longrightarrow>
   RowIsValid (SetInvalid cap m i) j = (j \<noteq> i \<and> RowIsValid m j)"
  by (auto simp: mask_cap_def SetInvalid_def RowIsValid_def nth_list_update split: option.splits)

lemma fold_Set_mask:
  "mask_cap cap m \<Longrightarrow> k \<le> cap \<Longrightarrow> j < cap \<Longrightarrow>
   mask_cap cap (fold (\<lambda>i m. Set_mask cap m i (v i)) [0..<k] m) \<and>
   RowIsValid (fold (\<lambda>i m. Set_mask cap m i (v i)) [0..<k] m) j =
     (if j < k then v j else RowIsValid m j)"
  by (induction k) (auto simp: Set_mask_cap RowIsValid_Set_mask less_Suc_eq)

lemma fold_SetInvalid:
  "mask_cap cap m \<Longrightarrow> k \<le> cap \<Longrightarrow> j < cap \<Longrightarrow>
   mask_cap cap (fold (\<lambda>i m. if Q i then SetInvalid cap m i else m) [0..<k] m) \<and>
   RowIsValid (fold (\<lambda>i m. if Q i then SetInvalid cap m i else m) [0..<k] m) j =
     (RowIsValid m j \<and> \<not> (j < k \<and> Q j))"
  by (induction k) (auto simp: SetInvalid_cap RowIsValid_SetInvalid less_Suc_eq)

lemma set_key_rows_spec:
  assumes "mask_cap (STANDARD_VECTOR_SIZE ext) m" "chunk_size join_keys \<le> STANDARD_VECTOR_SIZE ext"
    "r < chunk_size join_keys"
  shows "mask_cap (STANDARD_VECTOR_SIZE ext) (set_key_rows ext join_keys c m) \<and>
         RowIsValid (set_key_rows ext join_keys c m) r = (\<not> key_is_null join_keys c r)"
proof -
  have "r < STANDARD_VECTOR_SIZE ext" using assms by simp
  from fold_Set_mask[OF assms(1,2) this,
      where v = "\<lambda>i. RowIsValid (vvalidity (chunk_data join_keys ! c))
                         (get_index (vsel (chunk_data join_keys ! c)) i)"]
  show ?thesis using assms(3) by (simp add: set_key_rows_def key_is_null_def)
qed

lemma fold_update_fun_length:
  "length (fold (\<lambda>i data. data[i := g i]) [0..<m] d) = length d"
  by (induction m) auto

lemma fold_update_fun:
  "j < length d \<Longrightarrow> (fold (\<lambda>i data. data[i := g i]) [0..<m] d) ! j = (if j < m then g j else d ! j)"
  by (induction m) (auto simp: nth_list_update fold_update_fun_length less_Suc_eq)

lemma key_is_null_AllValid:
  "AllValid (vvalidity (chunk_data keys ! c)) \<Longrightarrow> \<not> key_is_null keys c r"
  by (simp add: key_is_null_def AllValid_def RowIsValid_def)

lemma null_in_key_column_masked:
  "null_in_key_column ht keys r =
     (\<exists>c\<in>set (filter (masked_key_column ht keys) [0..<ColumnCount keys]). key_is_null keys c r)"
  unfolding null_in_key_column_def masked_key_column_def
  using key_is_null_AllValid by auto

lemma mark_key_nulls_spec:
  assumes one: "length (filter (masked_key_column ht join_keys) [0..<ColumnCount join_keys]) \<le> 1"
    and sz: "chunk_size join_keys \<le> STANDARD_VECTOR_SIZE ext" and r: "r < chunk_size join_keys"
  shows "mask_cap (STANDARD_VECTOR_SIZE ext) (mark_key_nulls ext ht join_keys None) \<and>
         RowIsValid (mark_key_nulls ext ht join_keys None) r = (\<not> null_in_key_column ht join_keys r)"
proof (cases "filter (masked_key_column ht join_keys) [0..<ColumnCount join_keys]")
  case Nil
  then show ?thesis
    unfolding mark_key_nulls_filter null_in_key_column_masked
    by (simp add: mask_cap_def RowIsValid_def)
next
  case (Cons c cs)
  then have cs: "cs = []" using one by simp
  have n: "mask_cap (STANDARD_VECTOR_SIZE ext) None" by (simp add: mask_cap_def)
  have rc: "r < STANDARD_VECTOR_SIZE ext" using sz r by simp
  show ?thesis
    unfolding mark_key_nulls_filter null_in_key_column_masked Cons cs
    using set_key_rows_spec[OF n sz r, of c] by simp
qed

lemma reference_columns_data:
  "length (chunk_data (reference_columns result child)) = length (chunk_data result)"
  "j < length (chunk_data result) \<Longrightarrow>
   chunk_data (reference_columns result child) ! j =
     (if j < ColumnCount child then chunk_data child ! j else chunk_data result ! j)"
  by (simp_all add: reference_columns_def fold_update_fun_length fold_update_fun)

lemma last_update_last: "xs \<noteq> [] \<Longrightarrow> last (xs[length xs - 1 := x]) = x"
  by (simp add: last_conv_nth)

lemma reference_columns_last:
  assumes "length (chunk_data result) = ColumnCount child + 1"
  shows "last (chunk_data (reference_columns result child)) = last (chunk_data result)"
proof -
  have ne: "chunk_data result \<noteq> []" "chunk_data (reference_columns result child) \<noteq> []"
    using assms reference_columns_data(1)[of result child] by auto
  have "chunk_data (reference_columns result child) ! (length (chunk_data result) - 1) =
        chunk_data result ! (length (chunk_data result) - 1)"
    using assms by (subst reference_columns_data(2)) simp_all
  then show ?thesis
    using ne by (simp add: last_conv_nth reference_columns_data(1))
qed

lemma mark_bools:
  assumes "r < n" "n \<le> length d"
  shows "(case found_match ss of
            Some fm \<Rightarrow> fold (\<lambda>i data. data[i := BoolVal (fm ! i)]) [0..<n] d
          | None \<Rightarrow> fold (\<lambda>i data. data[i := BoolVal False]) [0..<n] d) ! r
         = BoolVal (lane_found ss r)"
  using assms by (cases "found_match ss") (simp_all add: lane_found_def fold_update_fun)

lemmas ex_mark_simps =
  ex_ht_mark_def ex_mark_keys_def ex_mark_child_def ex_mark_result_def ex_ss_mark_def
  ex_mark_keys2_def JoinHashTable_new_def ex_ext_def ex_mem_def flat_ints_def flat_ints_mask_def
  ColumnCount_def

lemma upt_2: "[0..<2] = [0, 1]"
  by (simp add: upt_rec numeral_2_eq_2)

lemma ex_mark_value:
  "map (GetValue (last (chunk_data
          (ConstructMarkJoinResult ex_ext ex_ht_mark ex_ss_mark ex_mark_keys ex_mark_child ex_mark_result))))
     [0, 1] = [None, Some (BoolVal True)]"
  by (simp add: ConstructMarkJoinResult_def reference_columns_def mark_key_nulls_def ex_mark_simps
       upt_2 upt_rec[of 0 1] Let_def GetValue_def RowIsValid_def AllValid_def Set_mask_def SetValid_def SetInvalid_def)

lemma ex_mark_value2:
  "map (GetValue (last (chunk_data
          (ConstructMarkJoinResult ex_ext ex_ht_mark ex_ss_mark ex_mark_keys2 ex_mark_child ex_mark_result))))
     [0, 1] = [Some (BoolVal False), None]"
  by (simp add: ConstructMarkJoinResult_def reference_columns_def mark_key_nulls_def ex_mark_simps
       upt_2 upt_rec[of 0 1] Let_def GetValue_def RowIsValid_def AllValid_def Set_mask_def SetValid_def SetInvalid_def)

lemma ex_mark_nulls:
  "\<not> null_in_equality_column ex_ht_mark ex_mark_keys 0"
  "null_in_key_column ex_ht_mark ex_mark_keys 0"
  "\<not> null_in_key_column ex_ht_mark ex_mark_keys 1"
  "null_in_equality_column ex_ht_mark ex_mark_keys2 0"
  "\<not> has_null ex_ht_mark"
  by (simp_all add: null_in_equality_column_def null_in_key_column_def key_is_null_def ex_mark_simps
       upt_2 upt_rec[of 0 1] RowIsValid_def is_equality_comparison_def)

lemma ex_mark_masked:
  "filter (masked_key_column ex_ht_mark ex_mark_keys) [0..<ColumnCount ex_mark_keys] = [1]"
  by (simp add: masked_key_column_def ex_mark_simps upt_2 AllValid_def)

text \<open>
  C1, as the code has it. For a probe batch of a mark join without correlated columns, with a
  fresh mark vector (all valid) as last column of the result, and in which at most one
  key column with null-equals flag false has a validity buffer: the mark of row \<open>r\<close> is
  NULL if and only if some key column whose null-equals flag is false (the column of any
  join condition, an equality or another comparison) holds a NULL in that probe row, or
  the build side has recorded \<open>has_null\<close> and no match was found for the row; otherwise
  the mark is \<open>found_match[r]\<close>.
\<close>

theorem ConstructMarkJoinResult_three_valued:
  assumes sz: "chunk_size join_keys = chunk_size child"
    and cap: "chunk_size child \<le> STANDARD_VECTOR_SIZE ext"
    and cols: "length (chunk_data result) = ColumnCount child + 1"
    and fresh: "vvalidity (last (chunk_data result)) = None"
    and len: "chunk_size child \<le> length (vdata (last (chunk_data result)))"
    and one: "length (filter (masked_key_column ht join_keys) [0..<ColumnCount join_keys]) \<le> 1"
    and r: "r < chunk_size child"
  shows "GetValue (last (chunk_data (ConstructMarkJoinResult ext ht ss join_keys child result))) r =
           (if null_in_key_column ht join_keys r \<or> (has_null ht \<and> \<not> lane_found ss r) then None
            else Some (BoolVal (lane_found ss r)))"
proof -
  let ?V = "STANDARD_VECTOR_SIZE ext"
  define mv where "mv = (last (chunk_data result))\<lparr> vsel := Incremental \<rparr>"
  define mask1 where "mask1 = mark_key_nulls ext ht join_keys None"
  define bools where "bools =
     (case found_match ss of
        Some fm \<Rightarrow> fold (\<lambda>i data. data[i := BoolVal (fm ! i)]) [0..<chunk_size child] (vdata mv)
      | None \<Rightarrow> fold (\<lambda>i data. data[i := BoolVal False]) [0..<chunk_size child] (vdata mv))"
  define mask2 where "mask2 =
     (if has_null ht
      then fold (\<lambda>i msk. if bools ! i = BoolVal False then SetInvalid ?V msk i else msk)
             [0..<chunk_size child] mask1
      else mask1)"
  have rk: "r < chunk_size join_keys" and rc: "r < ?V" using r sz cap by simp_all
  have ne: "chunk_data (reference_columns result child) \<noteq> []"
    using cols reference_columns_data(1)[of result child] by auto
  have b: "bools ! r = BoolVal (lane_found ss r)"
    unfolding bools_def using len by (intro mark_bools[OF r]) (simp add: mv_def)
  have m1: "mask_cap ?V mask1" "RowIsValid mask1 r = (\<not> null_in_key_column ht join_keys r)"
    unfolding mask1_def using mark_key_nulls_spec[OF one _ rk, of ext] cap sz by simp_all
  have m2: "RowIsValid mask2 r =
            (\<not> null_in_key_column ht join_keys r \<and> \<not> (has_null ht \<and> \<not> lane_found ss r))"
  proof (cases "has_null ht")
    case False
    then show ?thesis using m1(2) by (simp add: mask2_def)
  next
    case True
    from fold_SetInvalid[OF m1(1) cap rc, where Q = "\<lambda>i. bools ! i = BoolVal False"]
    show ?thesis using True r b m1(2) by (simp add: mask2_def)
  qed
  have "ConstructMarkJoinResult ext ht ss join_keys child result =
        ((reference_columns result child)\<lparr> chunk_size := chunk_size child \<rparr>)
          \<lparr> chunk_data := (chunk_data (reference_columns result child))
               [length (chunk_data (reference_columns result child)) - 1 :=
                  mv\<lparr> vvalidity := mask2, vdata := bools \<rparr>] \<rparr>"
    unfolding mv_def mask1_def bools_def mask2_def
    by (simp add: ConstructMarkJoinResult_def Let_def reference_columns_last[OF cols] fresh
          cong: option.case_cong if_cong)
  then have "last (chunk_data (ConstructMarkJoinResult ext ht ss join_keys child result)) =
             mv\<lparr> vvalidity := mask2, vdata := bools \<rparr>"
    using last_update_last[OF ne] by simp
  then show ?thesis
    using m2 b by (simp add: GetValue_def mv_def)
qed

theorem ConstructMarkJoinResult_three_valued_witness:
  "chunk_size ex_mark_keys = chunk_size ex_mark_child \<and>
   chunk_size ex_mark_child \<le> STANDARD_VECTOR_SIZE ex_ext \<and>
   length (chunk_data ex_mark_result) = ColumnCount ex_mark_child + 1 \<and>
   vvalidity (last (chunk_data ex_mark_result)) = None \<and>
   chunk_size ex_mark_child \<le> length (vdata (last (chunk_data ex_mark_result))) \<and>
   length (filter (masked_key_column ex_ht_mark ex_mark_keys) [0..<ColumnCount ex_mark_keys]) \<le> 1 \<and>
   GetValue (last (chunk_data
       (ConstructMarkJoinResult ex_ext ex_ht_mark ex_ss_mark ex_mark_keys ex_mark_child ex_mark_result))) 1
     = Some (BoolVal True)"
proof -
  have h: "chunk_size ex_mark_keys = chunk_size ex_mark_child"
    "chunk_size ex_mark_child \<le> STANDARD_VECTOR_SIZE ex_ext"
    "length (chunk_data ex_mark_result) = ColumnCount ex_mark_child + 1"
    "vvalidity (last (chunk_data ex_mark_result)) = None"
    "chunk_size ex_mark_child \<le> length (vdata (last (chunk_data ex_mark_result)))"
    by (simp_all add: ex_mark_simps)
  have one: "length (filter (masked_key_column ex_ht_mark ex_mark_keys) [0..<ColumnCount ex_mark_keys]) \<le> 1"
    unfolding ex_mark_masked by simp
  have r: "1 < chunk_size ex_mark_child" by (simp add: ex_mark_simps)
  have f: "lane_found ex_ss_mark 1" by (simp add: lane_found_def ex_mark_simps)
  show ?thesis
    using ConstructMarkJoinResult_three_valued[OF h one r, where ss = ex_ss_mark]
      h one f ex_mark_nulls(3,5)
    by simp
qed

text \<open>
  C1 as stated takes the NULLs from the equality key columns only. For the join
  condition \<open>k = x AND a < y\<close> the probe row \<open>(5, NULL)\<close> has no NULL in its equality
  column, the build side has no NULL, and the mark of the row is NULL.
\<close>

theorem mark_null_from_comparison_key_counterexample:
  "join_type ex_ht_mark = MARK \<and> correlated_types ex_ht_mark = 0 \<and>
   \<not> null_in_equality_column ex_ht_mark ex_mark_keys 0 \<and> \<not> has_null ex_ht_mark \<and>
   GetValue (last (chunk_data
       (ConstructMarkJoinResult ex_ext ex_ht_mark ex_ss_mark ex_mark_keys ex_mark_child ex_mark_result))) 0
     = None"
proof -
  have "join_type ex_ht_mark = MARK" "correlated_types ex_ht_mark = 0"
    by (simp_all add: ex_mark_simps)
  then show ?thesis using ex_mark_value ex_mark_nulls(1,5) by simp
qed

text \<open>
  When two key columns have a validity buffer, the loop over the join keys writes every
  row of the mask once per column (\<open>mask.Set(i, valid)\<close>), so the second column's valid
  entry replaces the first column's NULL: the row \<open>(NULL, 1)\<close> has a NULL in its equality
  key and gets the mark FALSE.
\<close>

lemma ConstructMarkJoinResult_second_key_column_overwrites:
  "null_in_equality_column ex_ht_mark ex_mark_keys2 0 \<and> \<not> has_null ex_ht_mark \<and>
   GetValue (last (chunk_data
       (ConstructMarkJoinResult ex_ext ex_ht_mark ex_ss_mark ex_mark_keys2 ex_mark_child ex_mark_result))) 0
     = Some (BoolVal False)"
  using ex_mark_value2 ex_mark_nulls(4,5) by simp

subsection \<open>Probing a table without rows\<close>

lemma fold_update_set_length:
  "length (fold (\<lambda>r d. d[r := g r]) L d) = length d"
  by (induction L arbitrary: d) simp_all

lemma fold_update_set:
  "j < length d \<Longrightarrow> fold (\<lambda>r d. d[r := g r]) L d ! j = (if j \<in> set L then g j else d ! j)"
  by (induction L arbitrary: d) (auto simp: fold_update_set_length nth_list_update)

lemma Hash_kept:
  assumes L: "selected cur sel count = L" and sub: "set L \<subseteq> {0..<chunk_size keys}"
    and sz: "chunk_size keys \<le> STANDARD_VECTOR_SIZE ext" and r: "r \<in> set L"
  shows "Hash ext ht keys cur sel count ! r = hash_row ext (key_row ht keys r)"
proof -
  have rs: "r < chunk_size keys" using sub r by auto
  show ?thesis
  proof (cases "count = chunk_size keys")
    case True
    then show ?thesis using rs by (simp add: Hash_def nth_append)
  next
    case False
    have "r < length (replicate (STANDARD_VECTOR_SIZE ext) (0::nat))" using rs sz by simp
    from fold_update_set[OF this, where g = "\<lambda>r. hash_row ext (key_row ht keys r)" and L = L]
    show ?thesis using False r by (simp add: Hash_def L)
  qed
qed

lemma Probe_zero_table:
  assumes sz: "chunk_size keys \<le> STANDARD_VECTOR_SIZE ext"
    and hm: "hash_map ht = replicate cap 0" and bm: "bitmask ht = cap - 1" and cap: "0 < cap"
  shows "ss_count (fst (Probe ext ht keys)) = 0 \<and> snd (Probe ext ht keys) = probe_slots ext ht keys"
proof -
  let ?V = "STANDARD_VECTOR_SIZE ext"
  let ?L = "filter (\<lambda>r. \<not> null_in_key_column ht keys r) [0..<chunk_size keys]"
  obtain cur selv added where pk: "PrepareKeys ht keys (replicate ?V 0) False = (cur, selv, added)"
    by (cases "PrepareKeys ht keys (replicate ?V 0) False") auto
  have ps: "length selv = ?V" "added \<le> chunk_size keys" "selected cur selv added = ?L"
    using PrepareKeys_spec[of keys "replicate ?V 0" False ht] sz pk by simp_all
  have lenL: "length ?L = added" using ps(3) by (metis length_map length_upt minus_nat.diff_0 selected_def)
  define ss0 where "ss0 = \<lparr> pointers = replicate ?V 0, sel_vector = selv, ss_count = added,
      found_match = (if join_type ht \<noteq> INNER then Some (replicate ?V False) else None),
      finished = False \<rparr>"
  have init: "InitializeScanStructure ext ht keys = (ss0, cur)"
    by (simp add: InitializeScanStructure_def pk ss0_def)
  show ?thesis
  proof (cases "added = 0")
    case True
    then have "?L = []" using lenL by simp
    then show ?thesis using True by (simp add: Probe_def init ss0_def probe_slots_def)
  next
    case False
    define hashes where "hashes = Hash ext ht keys cur selv added"
    define ptrs where "ptrs = ApplyBitmask_pointers ht hashes ?L (replicate ?V 0)"
    have sub: "set ?L \<subseteq> {0..<chunk_size keys}" by auto
    have lptrs: "length ptrs = ?V" by (simp add: ptrs_def ApplyBitmask_pointers_def fold_update_set_length)
    have pv: "ptrs ! r = hash_row ext (key_row ht keys r) AND bitmask ht" if "r \<in> set ?L" for r
    proof -
      have "r < length (replicate ?V (0::nat))" using that sz by simp
      from fold_update_set[OF this, where g = "\<lambda>r. hashes ! r AND bitmask ht" and L = ?L]
      have "ptrs ! r = hashes ! r AND bitmask ht"
        using that by (simp add: ptrs_def ApplyBitmask_pointers_def)
      then show ?thesis
        unfolding hashes_def using Hash_kept[OF ps(3) sub sz that] by simp
    qed
    have zero: "hash_map ht ! (ptrs ! r) = 0" if "r \<in> set ?L" for r
    proof -
      have "ptrs ! r \<le> cap - 1" unfolding pv[OF that] bm by (rule nat_and_le)
      then have "ptrs ! r < cap" using cap by simp
      then show ?thesis by (simp add: hm)
    qed
    have pr: "Probe ext ht keys =
              InitializeSelectionVector ht (ss0\<lparr> pointers := ptrs \<rparr>) cur"
      using False
      by (simp add: Probe_def init Let_def ptrs_def hashes_def ss0_def ps(3))
    obtain p' s' c' where ll: "load_loop (\<lambda>slot. hash_map ht ! slot) cur added 0 (ptrs, selv, 0) = (p', s', c')"
      by (cases "load_loop (\<lambda>slot. hash_map ht ! slot) cur added 0 (ptrs, selv, 0)") auto
    have lf: "lanes_from cur selv 0 added = ?L" using ps(3) by (simp add: lanes_from_selected)
    have "load_loop_post (\<lambda>slot. hash_map ht ! slot) ?L ptrs selv 0 (p', s', c')"
      using load_loop_spec[of 0 0 added selv cur ptrs "\<lambda>slot. hash_map ht ! slot"]
        ps(1,2) sz lptrs
      unfolding lf ll by auto
    then have "c' = length (filter (\<lambda>idx. hash_map ht ! (ptrs ! idx) \<noteq> 0) ?L)"
      by (simp add: load_loop_post_def)
    moreover have "filter (\<lambda>idx. hash_map ht ! (ptrs ! idx) \<noteq> 0) ?L = []"
      unfolding filter_empty_conv
    proof (rule ballI)
      fix x assume "x \<in> set ?L"
      from zero[OF this] show "\<not> hash_map ht ! (ptrs ! x) \<noteq> 0" by simp
    qed
    ultimately have c0: "c' = 0" by simp
    have rd: "map (\<lambda>idx. ptrs ! idx) ?L = probe_slots ext ht keys"
      unfolding probe_slots_def using pv by (simp add: map_eq_conv)
    show ?thesis
      unfolding pr using c0 rd
      by (simp add: InitializeSelectionVector_def ll ss0_def ps(3))
  qed
qed

lemma ex_empty_fields:
  "blocks (block_collection ex_ht_eq) = []" "Count ex_ht_eq = 0"
  "BLOCK_SIZE ex_ext div sizeof_data_ptr_t ex_ext < 2 ^ 63"
  "chunk_size ex_probe_keys \<le> STANDARD_VECTOR_SIZE ex_ext"
  "Finalize ex_ext ex_ht_eq = Some ex_ht_empty"
  "Finalize_capacity ex_ext ex_ht_eq = 16"
  by (simp_all add: Finalize_def Finalize_allocate_def ex_ht_empty_def Count_def ex_probe_keys_def
        Finalize_capacity_def NextPowerOfTwo_def next_pow2_from.simps
        ex_ht_eq_def ex_ext_def JoinHashTable_new_def)

lemma ex_empty_slots: "probe_slots ex_ext ex_ht_empty ex_probe_keys = [5]"
proof -
  have b: "bitmask ex_ht_empty = 15" "equality_count ex_ht_empty = 1"
    "null_values_are_equal ex_ht_empty = [False]"
    by (simp_all add: ex_ht_empty_def Finalize_allocate_def Let_def ex_empty_fields(6))
       (simp_all add: ex_ht_eq_def JoinHashTable_new_def is_equality_comparison_def)
  have n: "filter (\<lambda>r. \<not> null_in_key_column ex_ht_empty ex_probe_keys r) [0..<chunk_size ex_probe_keys] = [0]"
    by (simp add: null_in_key_column_def key_is_null_def b ex_probe_keys_def flat_ints_def
          ColumnCount_def RowIsValid_def)
  have h: "hash_row ex_ext (key_row ex_ht_empty ex_probe_keys 0) = 5"
    by (simp add: key_row_def b ex_probe_keys_def flat_ints_def GetValue_def RowIsValid_def ex_ext_def)
  have a: "(5::nat) AND 15 = 5" by (simp add: and_nat_numerals)
  show ?thesis unfolding probe_slots_def n by (simp add: h b a)
qed

text \<open>
  C8, as the code has it. For a table into which no row was built, \<open>Finalize\<close> returns an
  empty finalized table whose pointer array is all zero. \<open>Probe\<close> is not meant for such
  a table: the assertion \<open>Count() > 0\<close> of \<open>InitializeScanStructure\<close> ("should be
  handled before") fails on it. Without the assertion, \<open>Probe\<close> on a keys batch returns
  a scan structure with \<open>count = 0\<close>; it does not write the pointer array (it returns
  no new table), but it reads one slot of it, \<open>hash AND bitmask\<close>, for every key row
  that key preparation keeps, that is, every row without a NULL in a key column whose
  null-equals flag is false.
\<close>

theorem Probe_on_empty_table:
  assumes "blocks (block_collection ht) = []" and "Count ht = 0"
    and "BLOCK_SIZE ext div sizeof_data_ptr_t ext < 2 ^ 63"
    and "chunk_size keys \<le> STANDARD_VECTOR_SIZE ext"
  shows "\<exists>ht'. Finalize ext ht = Some ht' \<and> finalized ht' \<and> Count ht' = 0 \<and> table_rows ht' = [] \<and>
           hash_map ht' = replicate (Finalize_capacity ext ht) 0 \<and>
           \<not> InitializeScanStructure_asserts ht' \<and>
           ss_count (fst (Probe ext ht' keys)) = 0 \<and>
           snd (Probe ext ht' keys) = probe_slots ext ht' keys \<and>
           length (snd (Probe ext ht' keys)) =
             length (filter (\<lambda>r. \<not> null_in_key_column ht keys r) [0..<chunk_size keys])"
proof -
  define ht' where "ht' = (Finalize_allocate ext ht)\<lparr> finalized := True \<rparr>"
  have f: "Finalize ext ht = Some ht'"
    by (simp add: Finalize_def Finalize_allocate_fields assms(1) ht'_def)
  have cap: "0 < Finalize_capacity ext ht"
    using Finalize_capacity_no_wrap(2)[of ht ext] assms(2,3) by simp
  have fields: "finalized ht'" "Count ht' = 0" "table_rows ht' = []"
    "hash_map ht' = replicate (Finalize_capacity ext ht) 0"
    "bitmask ht' = Finalize_capacity ext ht - 1"
    "null_values_are_equal ht' = null_values_are_equal ht"
    using assms(1,2)
    by (simp_all add: ht'_def Count_def table_rows_def Finalize_allocate_fields)
       (simp_all add: Finalize_allocate_def Let_def)
  have na: "\<not> InitializeScanStructure_asserts ht'"
    by (simp add: InitializeScanStructure_asserts_def fields)
  note p = Probe_zero_table[OF assms(4) fields(4) fields(5) cap]
  have nk: "null_in_key_column ht' keys = null_in_key_column ht keys"
    by (intro ext) (simp add: null_in_key_column_def fields(6))
  have "length (snd (Probe ext ht' keys)) =
        length (filter (\<lambda>r. \<not> null_in_key_column ht keys r) [0..<chunk_size keys])"
    using p by (simp add: probe_slots_def nk)
  then show ?thesis using f fields(1-4) na p by blast
qed

theorem Probe_on_empty_table_witness:
  "blocks (block_collection ex_ht_eq) = [] \<and> Count ex_ht_eq = 0 \<and>
   BLOCK_SIZE ex_ext div sizeof_data_ptr_t ex_ext < 2 ^ 63 \<and>
   chunk_size ex_probe_keys \<le> STANDARD_VECTOR_SIZE ex_ext \<and>
   Finalize ex_ext ex_ht_eq = Some ex_ht_empty \<and>
   hash_map ex_ht_empty = replicate 16 0 \<and>
   ss_count (fst (Probe ex_ext ex_ht_empty ex_probe_keys)) = 0 \<and>
   length (snd (Probe ex_ext ex_ht_empty ex_probe_keys)) = 1"
proof -
  have "probe_slots ex_ext ex_ht_empty ex_probe_keys = [5]" by (rule ex_empty_slots)
  then show ?thesis
    using Probe_on_empty_table[OF ex_empty_fields(1-4)] ex_empty_fields by auto
qed

text \<open>
  C8 as stated has \<open>Probe\<close> return without reading the pointer array. On the empty
  finalized table, the probe of one row with the key 5 reads slot 5.
\<close>

theorem Probe_reads_slot_of_empty_table_counterexample:
  "blocks (block_collection ex_ht_eq) = [] \<and> Count ex_ht_eq = 0 \<and>
   Finalize ex_ext ex_ht_eq = Some ex_ht_empty \<and>
   ss_count (fst (Probe ex_ext ex_ht_empty ex_probe_keys)) = 0 \<and>
   snd (Probe ex_ext ex_ht_empty ex_probe_keys) = [5]"
proof -
  have hm: "hash_map ex_ht_empty = replicate 16 0" "bitmask ex_ht_empty = 16 - 1"
    by (simp_all add: ex_ht_empty_def Finalize_allocate_def Let_def ex_empty_fields(6))
  have "ss_count (fst (Probe ex_ext ex_ht_empty ex_probe_keys)) = 0 \<and>
        snd (Probe ex_ext ex_ht_empty ex_probe_keys) = probe_slots ex_ext ex_ht_empty ex_probe_keys"
    by (rule Probe_zero_table[OF ex_empty_fields(4) hm]) simp
  then show ?thesis using ex_empty_slots ex_empty_fields by simp
qed

subsection \<open>From Finalize to the end of the probe\<close>

lemma Probe_result:
  assumes sz: "chunk_size keys \<le> STANDARD_VECTOR_SIZE ext"
  shows "length (sel_vector (fst (Probe ext ht keys))) = STANDARD_VECTOR_SIZE ext \<and>
         length (pointers (fst (Probe ext ht keys))) = STANDARD_VECTOR_SIZE ext \<and>
         ss_count (fst (Probe ext ht keys)) \<le> STANDARD_VECTOR_SIZE ext \<and>
         live_lanes (fst (Probe ext ht keys)) =
           filter (\<lambda>r. hash_map ht ! (hash_row ext (key_row ht keys r) AND bitmask ht) \<noteq> 0)
             (filter (\<lambda>r. \<not> null_in_key_column ht keys r) [0..<chunk_size keys]) \<and>
         (\<forall>r\<in>set (live_lanes (fst (Probe ext ht keys))).
            pointers (fst (Probe ext ht keys)) ! r =
              hash_map ht ! (hash_row ext (key_row ht keys r) AND bitmask ht)) \<and>
         found_match (fst (Probe ext ht keys)) =
           (if join_type ht \<noteq> INNER then Some (replicate (STANDARD_VECTOR_SIZE ext) False) else None) \<and>
         \<not> finished (fst (Probe ext ht keys))"
proof -
  let ?V = "STANDARD_VECTOR_SIZE ext"
  let ?L = "filter (\<lambda>r. \<not> null_in_key_column ht keys r) [0..<chunk_size keys]"
  let ?slot = "\<lambda>r. hash_row ext (key_row ht keys r) AND bitmask ht"
  obtain cur selv added where pk: "PrepareKeys ht keys (replicate ?V 0) False = (cur, selv, added)"
    by (cases "PrepareKeys ht keys (replicate ?V 0) False") auto
  have ps: "length selv = ?V" "added \<le> chunk_size keys" "selected cur selv added = ?L"
    using PrepareKeys_spec[of keys "replicate ?V 0" False ht] sz pk by simp_all
  have lenL: "length ?L = added" using ps(3) by (metis length_map length_upt minus_nat.diff_0 selected_def)
  define ss0 where "ss0 = \<lparr> pointers = replicate ?V 0, sel_vector = selv, ss_count = added,
      found_match = (if join_type ht \<noteq> INNER then Some (replicate ?V False) else None),
      finished = False \<rparr>"
  have init: "InitializeScanStructure ext ht keys = (ss0, cur)"
    by (simp add: InitializeScanStructure_def pk ss0_def)
  show ?thesis
  proof (cases "added = 0")
    case True
    then have "?L = []" using lenL by simp
    then show ?thesis using True ps(1) by (simp add: Probe_def init ss0_def live_lanes_def)
  next
    case False
    define hashes where "hashes = Hash ext ht keys cur selv added"
    define ptrs where "ptrs = ApplyBitmask_pointers ht hashes ?L (replicate ?V 0)"
    have sub: "set ?L \<subseteq> {0..<chunk_size keys}" by auto
    have lptrs: "length ptrs = ?V" by (simp add: ptrs_def ApplyBitmask_pointers_def fold_update_set_length)
    have pv: "ptrs ! r = ?slot r" if "r \<in> set ?L" for r
    proof -
      have "r < length (replicate ?V (0::nat))" using that sz by simp
      from fold_update_set[OF this, where g = "\<lambda>r. hashes ! r AND bitmask ht" and L = ?L]
      have "ptrs ! r = hashes ! r AND bitmask ht"
        using that by (simp add: ptrs_def ApplyBitmask_pointers_def)
      then show ?thesis
        unfolding hashes_def using Hash_kept[OF ps(3) sub sz that] by simp
    qed
    have pr: "Probe ext ht keys =
              InitializeSelectionVector ht (ss0\<lparr> pointers := ptrs \<rparr>) cur"
      using False
      by (simp add: Probe_def init Let_def ptrs_def hashes_def ss0_def ps(3))
    obtain p' s' c' where ll: "load_loop (\<lambda>slot. hash_map ht ! slot) cur added 0 (ptrs, selv, 0) = (p', s', c')"
      by (cases "load_loop (\<lambda>slot. hash_map ht ! slot) cur added 0 (ptrs, selv, 0)") auto
    have lf: "lanes_from cur selv 0 added = ?L" using ps(3) by (simp add: lanes_from_selected)
    have "load_loop_post (\<lambda>slot. hash_map ht ! slot) ?L ptrs selv 0 (p', s', c')"
      using load_loop_spec[of 0 0 added selv cur ptrs "\<lambda>slot. hash_map ht ! slot"]
        ps(1,2) sz lptrs
      unfolding lf ll by auto
    then have post: "length s' = length selv" "length p' = length ptrs"
      "c' = length (filter (\<lambda>idx. hash_map ht ! (ptrs ! idx) \<noteq> 0) ?L)"
      "take c' s' = filter (\<lambda>idx. hash_map ht ! (ptrs ! idx) \<noteq> 0) ?L"
      "\<forall>idx\<in>set ?L. p' ! idx = hash_map ht ! (ptrs ! idx)"
      unfolding load_loop_post_def prod.case add_0 take_0 append_Nil by blast+
    have fe: "filter (\<lambda>idx. hash_map ht ! (ptrs ! idx) \<noteq> 0) ?L =
              filter (\<lambda>r. hash_map ht ! ?slot r \<noteq> 0) ?L"
      by (rule filter_cong[OF refl]) (simp add: pv)
    have fst_eq: "fst (Probe ext ht keys) = ss0\<lparr> pointers := p', sel_vector := s', ss_count := c' \<rparr>"
      unfolding pr by (simp add: InitializeSelectionVector_def ll ss0_def)
    have c_le: "c' \<le> ?V"
    proof -
      have "c' \<le> length ?L" unfolding post(3) by (rule length_filter_le)
      then show ?thesis using lenL ps(2) sz by linarith
    qed
    have live: "live_lanes (fst (Probe ext ht keys)) = filter (\<lambda>r. hash_map ht ! ?slot r \<noteq> 0) ?L"
      unfolding fst_eq live_lanes_def using post(4) fe by simp
    have ptr: "\<forall>r\<in>set (live_lanes (fst (Probe ext ht keys))).
            pointers (fst (Probe ext ht keys)) ! r = hash_map ht ! ?slot r"
    proof
      fix r assume "r \<in> set (live_lanes (fst (Probe ext ht keys)))"
      then have m: "r \<in> set ?L" unfolding live by simp
      then have "p' ! r = hash_map ht ! (ptrs ! r)" using post(5) by blast
      then show "pointers (fst (Probe ext ht keys)) ! r = hash_map ht ! ?slot r"
        unfolding fst_eq using pv[OF m] by simp
    qed
    have rest: "length (sel_vector (fst (Probe ext ht keys))) = ?V"
      "length (pointers (fst (Probe ext ht keys))) = ?V"
      "ss_count (fst (Probe ext ht keys)) \<le> ?V"
      "found_match (fst (Probe ext ht keys)) =
           (if join_type ht \<noteq> INNER then Some (replicate ?V False) else None)"
      "\<not> finished (fst (Probe ext ht keys))"
      unfolding fst_eq using post(1,2) ps(1) lptrs c_le by (simp_all add: ss0_def)
    show ?thesis using rest live ptr by blast
  qed
qed

text \<open>
  What \<open>Probe\<close> establishes on a table whose slots head chains of at most \<open>n\<close> rows: a
  well-formed scan structure whose live lanes point to rows of such chains.
\<close>

lemma Probe_scan_structure:
  assumes sz: "chunk_size keys \<le> STANDARD_VECTOR_SIZE ext"
    and bm: "bitmask ht < length (hash_map ht)"
    and ch: "\<forall>s<length (hash_map ht).
               chain_walk n (cells (heap ht)) (pointer_offset ht) (hash_map ht ! s) \<noteq> None"
  shows "ss_wf (fst (Probe ext ht keys))"
    and "chains_end_within ht n (fst (Probe ext ht keys))"
proof -
  let ?ss = "fst (Probe ext ht keys)"
  let ?slot = "\<lambda>r. hash_row ext (key_row ht keys r) AND bitmask ht"
  note p = Probe_result[OF sz, of ht]
  have live: "live_lanes ?ss =
           filter (\<lambda>r. hash_map ht ! ?slot r \<noteq> 0)
             (filter (\<lambda>r. \<not> null_in_key_column ht keys r) [0..<chunk_size keys])"
    using p by blast
  have ptr: "\<forall>r\<in>set (live_lanes ?ss). pointers ?ss ! r = hash_map ht ! ?slot r"
    using p by blast
  have d: "distinct (live_lanes ?ss)" unfolding live by simp
  have rng: "\<forall>r\<in>set (live_lanes ?ss). r < chunk_size keys \<and> hash_map ht ! ?slot r \<noteq> 0"
    unfolding live by simp
  have "list_all (\<lambda>idx. idx < length (pointers ?ss)) (live_lanes ?ss)"
    unfolding list_all_iff using rng p sz by auto
  moreover have "ss_count ?ss \<le> length (sel_vector ?ss)" using p by simp
  ultimately show "ss_wf ?ss" using d by (simp add: ss_wf_def)
  show "chains_end_within ht n ?ss"
    unfolding chains_end_within_def list_all_iff
  proof
    fix r assume m: "r \<in> set (live_lanes ?ss)"
    have "?slot r \<le> bitmask ht" by (rule nat_and_le)
    then have "?slot r < length (hash_map ht)" using bm by simp
    then have "chain_walk n (cells (heap ht)) (pointer_offset ht) (hash_map ht ! ?slot r) \<noteq> None"
      using ch by blast
    then show "pointers ?ss ! r \<noteq> 0 \<and>
         chain_walk n (cells (heap ht)) (pointer_offset ht) (pointers ?ss ! r) \<noteq> None"
      using ptr rng m by simp
  qed
qed

lemma fold_push_row_join_type: "join_type (fold push_row rows ht) = join_type ht"
  by (induction rows arbitrary: ht) (simp_all add: push_row_def Let_def)

lemma Finalize_join_type:
  assumes "0 < STANDARD_VECTOR_SIZE ext" "distinct (table_rows ht)"
    and "Finalize ext ht = Some ht'"
  shows "join_type ht' = join_type ht"
  using Finalize_pushes[OF assms(1,2)] assms(3)
  by (auto simp: fold_push_row_join_type Finalize_allocate_def Let_def)

text \<open>
  From the build to the end of the probe: on the table that \<open>Finalize\<close> returns, the scan
  structure of \<open>Probe\<close> for any batch of keys is finished by one call of \<open>Next\<close>.
\<close>

lemma Next_after_Probe_finishes:
  assumes vs: "0 < STANDARD_VECTOR_SIZE ext"
    and d: "distinct (table_rows ht)" and nz: "0 \<notin> set (table_rows ht)"
    and cnt: "Count ht \<le> 2 ^ 62" and bs: "BLOCK_SIZE ext div sizeof_data_ptr_t ext < 2 ^ 63"
    and jt: "join_type ht = SEMI \<or> join_type ht = ANTI \<or> join_type ht = MARK \<or> join_type ht = SINGLE"
    and sz: "chunk_size keys \<le> STANDARD_VECTOR_SIZE ext"
  shows "\<exists>ht' ss' result'.
           Finalize ext ht = Some ht' \<and>
           Next ext ht' keys left result (fst (Probe ext ht' keys)) = Some (Inr (ss', result', ht')) \<and>
           finished ss'"
proof -
  have cap: "0 < Finalize_capacity ext ht" using Finalize_capacity_no_wrap(2)[OF cnt bs] .
  obtain ht' where f: "Finalize ext ht = Some ht'"
    and ch: "chains_of ht' (cells (heap ht)) (table_rows ht)"
    using Finalize_chains[OF vs d nz cap] by blast
  have k: "length (hash_map ht') = Finalize_capacity ext ht"
    "bitmask ht' = Finalize_capacity ext ht - 1"
    using Finalize_keeps[OF f] by simp_all
  have bm: "bitmask ht' < length (hash_map ht')" using k cap by simp
  have walks: "\<forall>s<length (hash_map ht').
      chain_walk (length (table_rows ht)) (cells (heap ht')) (pointer_offset ht') (hash_map ht' ! s) \<noteq> None"
  proof (intro allI impI)
    fix s assume "s < length (hash_map ht')"
    then have "is_chain (cells (heap ht')) (pointer_offset ht') (hash_map ht' ! s)
          (rev (filter (\<lambda>row. cells (heap ht) (row + pointer_offset ht') AND bitmask ht' = s) (table_rows ht)))"
      using ch by (simp add: chains_of_def)
    then have "chain_walk (length (table_rows ht)) (cells (heap ht')) (pointer_offset ht') (hash_map ht' ! s) =
          Some (rev (filter (\<lambda>row. cells (heap ht) (row + pointer_offset ht') AND bitmask ht' = s)
                       (table_rows ht)))"
      by (rule is_chain_walk) simp
    then show "chain_walk (length (table_rows ht)) (cells (heap ht')) (pointer_offset ht') (hash_map ht' ! s) \<noteq> None"
      by simp
  qed
  have jt': "join_type ht' = SEMI \<or> join_type ht' = ANTI \<or> join_type ht' = MARK \<or> join_type ht' = SINGLE"
    using jt Finalize_join_type[OF vs d f] by simp
  note ss = Probe_scan_structure[OF sz bm walks]
  note p = Probe_result[OF sz, of ht']
  have fm: "found_match (fst (Probe ext ht' keys)) = Some (replicate (STANDARD_VECTOR_SIZE ext) False)"
    using p jt' by auto
  have nf: "\<not> finished (fst (Probe ext ht' keys))" using p by blast
  show ?thesis
    using Next_single_batch[OF jt' ss fm nf, of ext keys left result] f by blast
qed

end
